theory Spec2Isabelle
  imports Complex_Main "HOL-Library.Product_Lexorder"
begin

section \<open>Low-frequency component analysis: the helper functions and \<open>lfca\<close>\<close>

text \<open>
  The notebook defines four functions: \<open>low_pass_weights\<close>, \<open>filter_padding\<close>,
  \<open>filter_ts\<close> and \<open>lfca\<close>. They are Python over numpy arrays. Exceptions are values of
  \<open>py_error\<close>; a function that can raise returns \<open>py_error + 'a\<close>.
\<close>

datatype py_error = ValueError | TypeError | IndexError | ZeroDivisionError | LinAlgError

subsection \<open>Python slices on one-dimensional arrays\<close>

text \<open>
  A slice bound of a step-1 slice on an array of length \<open>L\<close>: a negative bound counts
  from the end, and the result is clamped to \<open>0..L\<close>. An omitted bound is \<open>None\<close>.
\<close>

definition py_index :: "nat \<Rightarrow> int \<Rightarrow> nat" where
  "py_index L i = (if i < 0 then nat (max (i + int L) 0) else min (nat i) L)"

definition slice_start :: "nat \<Rightarrow> int option \<Rightarrow> nat" where
  "slice_start L a = (case a of None \<Rightarrow> 0 | Some i \<Rightarrow> py_index L i)"

definition slice_stop :: "nat \<Rightarrow> int option \<Rightarrow> nat" where
  "slice_stop L b = (case b of None \<Rightarrow> L | Some i \<Rightarrow> py_index L i)"

text \<open>\<open>xs[a:b]\<close>\<close>

definition getslice :: "'a list \<Rightarrow> int option \<Rightarrow> int option \<Rightarrow> 'a list" where
  "getslice xs a b =
     (let s = slice_start (length xs) a; e = slice_stop (length xs) b
      in take (e - s) (drop s xs))"

text \<open>
  numpy assigns \<open>v\<close> to \<open>m\<close> selected places when \<open>v\<close> has \<open>m\<close> elements, repeats a
  one-element \<open>v\<close>, and raises ValueError (could not broadcast) otherwise.
\<close>

definition broadcast_to :: "nat \<Rightarrow> 'a list \<Rightarrow> py_error + 'a list" where
  "broadcast_to m v =
     (if length v = m then Inr v
      else if length v = 1 then Inr (replicate m (hd v))
      else Inl ValueError)"

definition splice :: "'a list \<Rightarrow> nat \<Rightarrow> nat \<Rightarrow> 'a list \<Rightarrow> 'a list" where
  "splice xs s m v = take s xs @ v @ drop (s + m) xs"

text \<open>\<open>xs[a:b] = v\<close>\<close>

definition setslice :: "'a list \<Rightarrow> int option \<Rightarrow> int option \<Rightarrow> 'a list \<Rightarrow> py_error + 'a list" where
  "setslice xs a b v =
     (let s = slice_start (length xs) a; e = slice_stop (length xs) b; m = e - s
      in case broadcast_to m v of
           Inl err \<Rightarrow> Inl err
         | Inr v' \<Rightarrow> Inr (splice xs s m v'))"

text \<open>
  A bound of a step \<open>-1\<close> slice is clamped to \<open>-1..L-1\<close>. \<open>xs[a:b:-1]\<close> selects the
  places \<open>a', a'-1, ..., b'+1\<close>; assigning \<open>v\<close> along them writes \<open>rev v\<close> at the
  ascending places \<open>b'+1 .. a'\<close>.
\<close>

definition py_index_neg :: "nat \<Rightarrow> int \<Rightarrow> int" where
  "py_index_neg L i = (if i < 0 then max (i + int L) (- 1) else min i (int L - 1))"

definition setslice_rev :: "'a list \<Rightarrow> int \<Rightarrow> int \<Rightarrow> 'a list \<Rightarrow> py_error + 'a list" where
  "setslice_rev xs a b v =
     (let hi = py_index_neg (length xs) a; lo = py_index_neg (length xs) b;
          m = nat (hi - lo)
      in case broadcast_to m v of
           Inl err \<Rightarrow> Inl err
         | Inr v' \<Rightarrow> Inr (splice xs (nat (lo + 1)) m (rev v')))"

text \<open>\<open>xs[i] = v\<close> with a Python index: IndexError out of range.\<close>

definition setitem :: "'a list \<Rightarrow> int \<Rightarrow> 'a \<Rightarrow> py_error + 'a list" where
  "setitem xs i v =
     (if 0 \<le> i \<and> i < int (length xs) then Inr (xs[nat i := v])
      else if - int (length xs) \<le> i \<and> i < 0 then Inr (xs[nat (i + int (length xs)) := v])
      else Inl IndexError)"

subsection \<open>\<open>low_pass_weights\<close>\<close>

text \<open>
  \<open>np.zeros([nwts])\<close> raises ValueError for a negative size. \<open>np.arange(1., n)\<close> is
  \<open>1, 2, ..., n-1\<close>. The window is a Python int, the cutoff a finite float, taken as a
  real; every division is by \<open>pi * k\<close> or by \<open>n\<close> with \<open>1 \<le> k < n\<close>.
\<close>

definition np_zeros :: "int \<Rightarrow> py_error + real list" where
  "np_zeros n = (if n < 0 then Inl ValueError else Inr (replicate (nat n) 0))"

definition low_pass_weights :: "int \<Rightarrow> real \<Rightarrow> py_error + real list" where
  "low_pass_weights window cutoff =
     (let order = ((window - 1) div 2) + 1;
          nwts = 2 * order + 1
      in case np_zeros nwts of
           Inl err \<Rightarrow> Inl err
         | Inr w0 \<Rightarrow>
             (let n = nwts div 2
              in case setitem w0 n (2 * cutoff) of
                   Inl err \<Rightarrow> Inl err
                 | Inr w1 \<Rightarrow>
                     (let k = map real_of_int [1..n - 1];
                          sigma = map (\<lambda>k. sin (pi * k / real_of_int n) * real_of_int n / (pi * k)) k;
                          firstfactor = map (\<lambda>k. sin (2 * pi * cutoff * k) / (pi * k)) k
                      in case setslice_rev w1 (n - 1) 0 (map2 (*) firstfactor sigma) of
                           Inl err \<Rightarrow> Inl err
                         | Inr w2 \<Rightarrow>
                             (case setslice w2 (Some (n + 1)) (Some (- 1)) (map2 (*) firstfactor sigma) of
                                Inl err \<Rightarrow> Inl err
                              | Inr w3 \<Rightarrow> Inr (getslice w3 (Some 1) (Some (- 1)))))))"

definition lanczos_tap :: "real \<Rightarrow> int \<Rightarrow> real \<Rightarrow> real" where
  \<comment> \<open>\<open>firstfactor * sigma\<close> at one \<open>k\<close>, for the closed form of the taps\<close>
  "lanczos_tap cutoff n k =
     (sin (2 * pi * cutoff * k) / (pi * k)) * (sin (pi * k / real_of_int n) * real_of_int n / (pi * k))"

subsection \<open>numpy floats\<close>

text \<open>
  An array element is an IEEE double. The model keeps the finite values as exact reals
  (no rounding, no overflow, no signed zero) and keeps the three special values, because
  numpy's array division and square root return them instead of raising.
\<close>

datatype npfloat = Fin real | PInf | NInf | NaN

fun is_fin :: "npfloat \<Rightarrow> bool" where
  "is_fin (Fin _) = True"
| "is_fin _ = False"

fun np_neg :: "npfloat \<Rightarrow> npfloat" where
  "np_neg (Fin a) = Fin (- a)"
| "np_neg PInf = NInf"
| "np_neg NInf = PInf"
| "np_neg NaN = NaN"

fun np_add :: "npfloat \<Rightarrow> npfloat \<Rightarrow> npfloat" where
  "np_add (Fin a) (Fin b) = Fin (a + b)"
| "np_add NaN _ = NaN"
| "np_add _ NaN = NaN"
| "np_add PInf NInf = NaN"
| "np_add NInf PInf = NaN"
| "np_add PInf _ = PInf"
| "np_add _ PInf = PInf"
| "np_add NInf _ = NInf"
| "np_add _ NInf = NInf"

definition np_sub :: "npfloat \<Rightarrow> npfloat \<Rightarrow> npfloat" where
  "np_sub a b = np_add a (np_neg b)"

definition inf_of_sign :: "real \<Rightarrow> npfloat" where
  "inf_of_sign s = (if s = 0 then NaN else if 0 < s then PInf else NInf)"

fun np_mul :: "npfloat \<Rightarrow> npfloat \<Rightarrow> npfloat" where
  "np_mul (Fin a) (Fin b) = Fin (a * b)"
| "np_mul NaN _ = NaN"
| "np_mul _ NaN = NaN"
| "np_mul (Fin a) PInf = inf_of_sign a"
| "np_mul (Fin a) NInf = inf_of_sign (- a)"
| "np_mul PInf (Fin b) = inf_of_sign b"
| "np_mul NInf (Fin b) = inf_of_sign (- b)"
| "np_mul PInf PInf = PInf"
| "np_mul NInf NInf = PInf"
| "np_mul PInf NInf = NInf"
| "np_mul NInf PInf = NInf"

text \<open>Division by zero: \<open>0/0\<close> is nan, \<open>a/0\<close> is an infinity of the sign of \<open>a\<close>.\<close>

fun np_div :: "npfloat \<Rightarrow> npfloat \<Rightarrow> npfloat" where
  "np_div (Fin a) (Fin b) = (if b = 0 then inf_of_sign a else Fin (a / b))"
| "np_div NaN _ = NaN"
| "np_div _ NaN = NaN"
| "np_div (Fin a) PInf = Fin 0"
| "np_div (Fin a) NInf = Fin 0"
| "np_div PInf (Fin b) = (if 0 \<le> b then PInf else NInf)"
| "np_div NInf (Fin b) = (if 0 \<le> b then NInf else PInf)"
| "np_div PInf PInf = NaN"
| "np_div NInf NInf = NaN"
| "np_div PInf NInf = NaN"
| "np_div NInf PInf = NaN"

fun np_sqrt :: "npfloat \<Rightarrow> npfloat" where
  "np_sqrt (Fin a) = (if a < 0 then NaN else Fin (sqrt a))"
| "np_sqrt PInf = PInf"
| "np_sqrt NInf = NaN"
| "np_sqrt NaN = NaN"

text \<open>\<open>a < b\<close>: every comparison with nan is false.\<close>

fun np_less :: "npfloat \<Rightarrow> npfloat \<Rightarrow> bool" where
  "np_less (Fin a) (Fin b) = (a < b)"
| "np_less NaN _ = False"
| "np_less _ NaN = False"
| "np_less NInf NInf = False"
| "np_less NInf _ = True"
| "np_less PInf _ = False"
| "np_less (Fin a) PInf = True"
| "np_less (Fin a) NInf = False"

text \<open>\<open>a >= b\<close>\<close>

fun np_ge :: "npfloat \<Rightarrow> npfloat \<Rightarrow> bool" where
  "np_ge (Fin a) (Fin b) = (b \<le> a)"
| "np_ge NaN _ = False"
| "np_ge _ NaN = False"
| "np_ge PInf _ = True"
| "np_ge _ NInf = True"
| "np_ge NInf _ = False"
| "np_ge (Fin a) PInf = False"

definition np_sum :: "npfloat list \<Rightarrow> npfloat" where
  "np_sum xs = foldl np_add (Fin 0) xs"

subsection \<open>The library functions the notebook calls\<close>

text \<open>
  \<open>np.polyfit\<close>, \<open>scipy.signal.butter\<close>, \<open>scipy.signal.filtfilt\<close>, the \<open>Eof\<close> solver of
  the eofs package and \<open>np.linalg.eigh\<close> are not part of the notebook. They are
  parameters of the model, each returning an error or its result.
  An \<open>Eof\<close> solver object answers \<open>pcs(npcs, pcscaling=1)\<close> (\<open>eof_pcs npcs\<close>) and
  \<open>eofs(neofs, eofscaling)\<close> (\<open>eof_eofs neofs eofscaling\<close>).
\<close>

record eof_solver =
  eof_pcs :: "nat \<Rightarrow> npfloat list list"
  eof_eofs :: "nat \<Rightarrow> nat \<Rightarrow> npfloat list list"

record numlib =
  polyfit :: "int list \<Rightarrow> npfloat list \<Rightarrow> int \<Rightarrow> py_error + npfloat list"
  butter :: "nat \<Rightarrow> real \<Rightarrow> py_error + (npfloat list \<times> npfloat list)"
  filtfilt :: "npfloat list \<Rightarrow> npfloat list \<Rightarrow> npfloat list \<Rightarrow> py_error + npfloat list"
  Eof :: "npfloat list list \<Rightarrow> py_error + eof_solver"
  eigh :: "npfloat list list \<Rightarrow> py_error + (npfloat list \<times> npfloat list list)"

text \<open>
  \<open>np.poly1d(z)(x)\<close>: Horner's rule over the coefficients, highest degree first,
  starting from zero.
\<close>

definition polyval :: "npfloat list \<Rightarrow> int \<Rightarrow> npfloat" where
  "polyval z x = foldl (\<lambda>y pv. np_add (np_mul y (Fin (real_of_int x))) pv) (Fin 0) z"

text \<open>
  \<open>scipy.signal.convolve(a, v, 'same')\<close> by the direct method: the full convolution,
  of length \<open>n + m - 1\<close>, cut to the \<open>n\<close> central elements, starting at
  \<open>(m - 1) div 2\<close>. An empty operand is rejected with ValueError.
\<close>

definition convolve_full :: "npfloat list \<Rightarrow> npfloat list \<Rightarrow> npfloat list" where
  "convolve_full a v =
     map (\<lambda>k. np_sum (map (\<lambda>i. np_mul (a ! i) (v ! (k - i)))
                         (filter (\<lambda>i. i \<le> k \<and> k - i < length v) [0..<length a])))
         [0..<length a + length v - 1]"

definition convolve_same :: "npfloat list \<Rightarrow> npfloat list \<Rightarrow> py_error + npfloat list" where
  "convolve_same a v =
     (if a = [] \<or> v = [] then Inl ValueError
      else Inr (take (length a) (drop ((length v - 1) div 2) (convolve_full a v))))"

subsection \<open>\<open>filter_padding\<close>\<close>

definition filter_padding ::
  "numlib \<Rightarrow> npfloat list \<Rightarrow> int \<Rightarrow> string \<Rightarrow> bool \<Rightarrow> int \<Rightarrow> py_error + npfloat list" where
  "filter_padding lib ts window ftype detrend detrend_poly =
     (case np_zeros (2 * window + int (length ts)) of
        Inl err \<Rightarrow> Inl err
      | Inr zs \<Rightarrow>
          (let t = [0..int (length ts) - 1]
           in case (if detrend then polyfit lib t ts detrend_poly else Inr []) of
                Inl err \<Rightarrow> Inl err
              | Inr z \<Rightarrow>
                  (let ts_in = (if detrend then map2 np_sub ts (map (polyval z) t) else ts)
                   in case setslice (map Fin zs) (Some window) (Some (- window)) (getslice ts_in None None) of
                        Inl err \<Rightarrow> Inl err
                      | Inr ts_pad1 \<Rightarrow>
                          (case (if ftype = ''mirror'' then
                                   (case setslice ts_pad1 None (Some window) (rev (getslice ts_in None (Some window))) of
                                      Inl err \<Rightarrow> Inl err
                                    | Inr ts_pad2 \<Rightarrow>
                                        setslice ts_pad2 (Some (- window)) None (rev (getslice ts_in (Some (- window)) None)))
                                 else if ftype = ''periodic'' then
                                   (case setslice ts_pad1 None (Some window) (getslice ts_in (Some (- window)) None) of
                                      Inl err \<Rightarrow> Inl err
                                    | Inr ts_pad2 \<Rightarrow>
                                        setslice ts_pad2 (Some (- window)) None (getslice ts_in None (Some window)))
                                 else Inl ValueError) of
                             Inl err \<Rightarrow> Inl err
                           | Inr ts_pad3 \<Rightarrow>
                               (if detrend then
                                  (let t_pad = [- window..int (length ts) + window - 1]
                                   in Inr (map2 np_add ts_pad3 (map (polyval z) t_pad)))
                                else Inr ts_pad3)))))"

text \<open>The padded series in closed form, for a window no longer than the series.\<close>

definition padded :: "string \<Rightarrow> nat \<Rightarrow> npfloat list \<Rightarrow> npfloat list" where
  "padded ftype w ts_in =
     (if ftype = ''mirror''
      then rev (take w ts_in) @ ts_in @ rev (drop (length ts_in - w) ts_in)
      else drop (length ts_in - w) ts_in @ ts_in @ take w ts_in)"

subsection \<open>\<open>filter_ts\<close>\<close>

text \<open>
  The cutoff is a Python int: \<open>1./cutoff\<close> raises ZeroDivisionError at zero, before
  \<open>low_pass_weights\<close> is called. \<open>int(np.ceil(len/2))\<close> is \<open>(len + 1) div 2\<close>.
\<close>

definition filter_ts ::
  "numlib \<Rightarrow> npfloat list \<Rightarrow> int \<Rightarrow> string \<Rightarrow> string \<Rightarrow> bool \<Rightarrow> int \<Rightarrow> py_error + npfloat list" where
  "filter_ts lib ts cutoff filter_type padding_type detrend detrend_poly =
     (if cutoff = 0 then Inl ZeroDivisionError
      else case low_pass_weights (cutoff * 2 + 1) (1 / real_of_int cutoff) of
        Inl err \<Rightarrow> Inl err
      | Inr lanczos_weights \<Rightarrow>
          (let n_pad = int ((length lanczos_weights + 1) div 2)
           in case filter_padding lib ts n_pad padding_type detrend detrend_poly of
                Inl err \<Rightarrow> Inl err
              | Inr ts_mirr \<Rightarrow>
                  (if filter_type = ''lanczos'' then
                     (case convolve_same ts_mirr (map Fin lanczos_weights) of
                        Inl err \<Rightarrow> Inl err
                      | Inr y \<Rightarrow> Inr (getslice y (Some n_pad) (Some (- n_pad))))
                   else if filter_type = ''butter'' then
                     (case butter lib 3 (1 / (real_of_int cutoff / 2)) of
                        Inl err \<Rightarrow> Inl err
                      | Inr (b, a) \<Rightarrow>
                          (case filtfilt lib b a ts_mirr of
                             Inl err \<Rightarrow> Inl err
                           | Inr y \<Rightarrow> Inr (getslice y (Some n_pad) (Some (- n_pad)))))
                   else Inl ValueError)))"

subsection \<open>Two-dimensional arrays\<close>

text \<open>
  A two-dimensional array is the list of its rows, all of one length (an array with no
  row therefore has no column either). \<open>ndarray\<close> tells the dimensions apart where
  the code or numpy asks for them.
\<close>

datatype ndarray = A0 npfloat | A1 "npfloat list" | A2 "npfloat list list"

definition ncols :: "'a list list \<Rightarrow> nat" where
  "ncols m = (case m of [] \<Rightarrow> 0 | r # _ \<Rightarrow> length r)"

definition column :: "'a list list \<Rightarrow> nat \<Rightarrow> 'a list" where
  "column m j = map (\<lambda>r. r ! j) m"

definition np_transpose :: "'a list list \<Rightarrow> 'a list list" where
  "np_transpose m = map (column m) [0..<ncols m]"

text \<open>
  An elementwise operation on two arrays along one axis: equal lengths pair up, a length
  of one is repeated, anything else raises ValueError (operands could not be broadcast).
\<close>

definition broadcast2 :: "('a \<Rightarrow> 'b \<Rightarrow> 'c) \<Rightarrow> 'a list \<Rightarrow> 'b list \<Rightarrow> py_error + 'c list" where
  "broadcast2 f xs ys =
     (if length xs = length ys then Inr (map2 f xs ys)
      else if length xs = 1 then Inr (map (f (hd xs)) ys)
      else if length ys = 1 then Inr (map (\<lambda>x. f x (hd ys)) xs)
      else Inl ValueError)"

text \<open>Apply a function that can raise to each element in turn; the first error wins.\<close>

fun map_err :: "('a \<Rightarrow> py_error + 'b) \<Rightarrow> 'a list \<Rightarrow> py_error + 'b list" where
  "map_err f [] = Inr []"
| "map_err f (x # xs) =
     (case f x of
        Inl err \<Rightarrow> Inl err
      | Inr y \<Rightarrow> (case map_err f xs of Inl err \<Rightarrow> Inl err | Inr ys \<Rightarrow> Inr (y # ys)))"

text \<open>\<open>np.dot\<close> of two vectors: ValueError when their lengths differ.\<close>

definition np_dot :: "npfloat list \<Rightarrow> npfloat list \<Rightarrow> py_error + npfloat" where
  "np_dot a b = (if length a = length b then Inr (np_sum (map2 np_mul a b)) else Inl ValueError)"

text \<open>
  The matrix product \<open>a @ b\<close> (and \<open>np.dot\<close> of two matrices): every row of \<open>a\<close> must
  be as long as \<open>b\<close> has rows.
\<close>

definition matmul :: "npfloat list list \<Rightarrow> npfloat list list \<Rightarrow> py_error + npfloat list list" where
  "matmul a b =
     (if list_all (\<lambda>r. length r = length b) a
      then Inr (map (\<lambda>r. map (\<lambda>c. np_sum (map2 np_mul r c)) (np_transpose b)) a)
      else Inl ValueError)"

text \<open>\<open>np.mean(x, axis=0)\<close>: the mean of each column.\<close>

definition np_mean_axis0 :: "npfloat list list \<Rightarrow> npfloat list" where
  "np_mean_axis0 x =
     map (\<lambda>j. np_div (np_sum (column x j)) (Fin (real (length x)))) [0..<ncols x]"

text \<open>
  \<open>np.cov(m, rowvar=False)\<close>. numpy transposes \<open>m\<close> unless it has exactly one row, so
  that the rows of \<open>X\<close> are the variables; returns an empty \<open>0 \<times> 0\<close> array when there is
  no variable; subtracts each row's mean; multiplies \<open>X X\<^sup>T\<close> by \<open>1 / fact\<close> with
  \<open>fact\<close> the number of observations minus one (zero when that is not positive); and
  ends with \<open>squeeze()\<close>, which turns a \<open>1 \<times> 1\<close> result into a zero-dimensional array.
\<close>

definition np_cov :: "npfloat list list \<Rightarrow> ndarray" where
  "np_cov m =
     (let X = (if length m \<noteq> 1 then np_transpose m else m)
      in if X = [] then A2 []
         else
           (let avg = map (\<lambda>r. np_div (np_sum r) (Fin (real (length r)))) X;
                fact = (if ncols X \<le> 1 then 0 else real (ncols X) - 1);
                Xc = map2 (\<lambda>r a. map (\<lambda>v. np_sub v a) r) X avg;
                c = map (\<lambda>r. map (\<lambda>s. np_mul (np_sum (map2 np_mul r s)) (np_div (Fin 1) (Fin fact))) Xc) Xc
            in if length c = 1 then A0 (hd (hd c)) else A2 c))"

text \<open>\<open>np.linalg.eigh\<close> rejects an array of fewer than two dimensions with LinAlgError.\<close>

definition np_linalg_eigh ::
  "numlib \<Rightarrow> ndarray \<Rightarrow> py_error + (npfloat list \<times> npfloat list list)" where
  "np_linalg_eigh lib a = (case a of A2 m \<Rightarrow> eigh lib m | _ \<Rightarrow> Inl LinAlgError)"

text \<open>
  \<open>np.argsort\<close>, modelled as a stable ascending sort of the indices (what numpy's
  \<open>kind='stable'\<close> gives, and its default kind on short arrays). numpy orders
  \<open>-inf < finite < inf < nan\<close>; \<open>np_sort_key\<close> maps a float to its place in that order.
\<close>

fun np_sort_key :: "npfloat \<Rightarrow> nat \<times> real" where
  "np_sort_key NInf = (0, 0)"
| "np_sort_key (Fin a) = (1, a)"
| "np_sort_key PInf = (2, 0)"
| "np_sort_key NaN = (3, 0)"

definition np_argsort :: "npfloat list \<Rightarrow> nat list" where
  "np_argsort e = sort_key (\<lambda>i. np_sort_key (e ! i)) [0..<length e]"

text \<open>\<open>m[:, idx]\<close>: IndexError when an index is not a column of \<open>m\<close>.\<close>

definition take_columns :: "'a list list \<Rightarrow> nat list \<Rightarrow> py_error + 'a list list" where
  "take_columns m idx =
     (if list_all (\<lambda>r. list_all (\<lambda>i. i < length r) idx) m
      then Inr (map (\<lambda>r. map (\<lambda>i. r ! i) idx) m)
      else Inl IndexError)"

subsection \<open>\<open>lfca\<close>\<close>

text \<open>The keyword arguments that \<open>lfca\<close> hands on to \<open>filter_ts\<close>, with their defaults.\<close>

record filter_kwargs =
  kw_filter_type :: string
  kw_padding_type :: string
  kw_detrend :: bool
  kw_detrend_poly :: int

definition default_kwargs :: filter_kwargs where
  "default_kwargs = \<lparr>kw_filter_type = ''lanczos'', kw_padding_type = ''mirror'',
                      kw_detrend = True, kw_detrend_poly = 1\<rparr>"

text \<open>
  The weights are the \<open>1 \<times> N\<close> array the notebook passes, given by its one row;
  \<open>scale\<close> is then the \<open>N \<times> 1\<close> column \<open>sqrt(weights.T / sum(weights))\<close>, given by its
  entries. numpy divides by a zero sum without raising.
\<close>

definition lfca_scale :: "npfloat list \<Rightarrow> npfloat list" where
  "lfca_scale weights = map (\<lambda>w. np_sqrt (np_div w (np_sum weights))) weights"

text \<open>\<open>x - np.mean(x, axis=0)\<close>\<close>

definition center :: "npfloat list list \<Rightarrow> npfloat list list" where
  "center x = map (\<lambda>r. map2 np_sub r (np_mean_axis0 x)) x"

text \<open>
  The filtering loop. \<open>pcs[:, i]\<close> raises IndexError when \<open>pcs\<close> has no column \<open>i\<close>;
  \<open>pcs_filt[:, i] = pci_filt[:]\<close> broadcasts the filtered series to the column.
\<close>

definition set_column :: "'a list list \<Rightarrow> nat \<Rightarrow> 'a list \<Rightarrow> 'a list list" where
  "set_column m i col = map2 (\<lambda>r v. r[i := v]) m col"

fun filter_pcs ::
  "numlib \<Rightarrow> int \<Rightarrow> filter_kwargs \<Rightarrow> npfloat list list \<Rightarrow> nat list \<Rightarrow> npfloat list list
     \<Rightarrow> py_error + npfloat list list" where
  "filter_pcs lib cutoff kw pcs [] pcs_filt = Inr pcs_filt"
| "filter_pcs lib cutoff kw pcs (i # is) pcs_filt =
     (if ncols pcs \<le> i then Inl IndexError
      else case filter_ts lib (column pcs i) cutoff (kw_filter_type kw) (kw_padding_type kw)
                  (kw_detrend kw) (kw_detrend_poly kw) of
        Inl err \<Rightarrow> Inl err
      | Inr pci_filt \<Rightarrow>
          (case broadcast_to (length pcs_filt) (getslice pci_filt None None) of
             Inl err \<Rightarrow> Inl err
           | Inr col \<Rightarrow> filter_pcs lib cutoff kw pcs is (set_column pcs_filt i col)))"

text \<open>
  \<open>eig_argsort = np.argsort(eig_lowfreq)[::-1]\<close>, then the eigenvalues and the columns
  of the eigenvector matrix taken in that order.
\<close>

definition eig_argsort :: "npfloat list \<Rightarrow> nat list" where
  "eig_argsort eig_lowfreq = rev (np_argsort eig_lowfreq)"

definition sort_eig ::
  "npfloat list \<times> npfloat list list \<Rightarrow> py_error + (npfloat list \<times> npfloat list list)" where
  "sort_eig ev =
     (case ev of (eig_lowfreq, eigv_lowfreq) \<Rightarrow>
        (case take_columns eigv_lowfreq (eig_argsort eig_lowfreq) of
           Inl err \<Rightarrow> Inl err
         | Inr eigv \<Rightarrow> Inr (map (\<lambda>i. eig_lowfreq ! i) (eig_argsort eig_lowfreq), eigv)))"

text \<open>
  The sign loop over \<open>j in range(lfps.shape[1])\<close>: where \<open>np.dot(lfps[:, j], scale)\<close> is
  negative, column \<open>j\<close> of \<open>lfps\<close> and of \<open>lfcs\<close> is negated.
\<close>

definition neg_column :: "npfloat list list \<Rightarrow> nat \<Rightarrow> npfloat list list" where
  "neg_column m j = map (\<lambda>r. r[j := np_neg (r ! j)]) m"

fun choose_sign ::
  "npfloat list \<Rightarrow> nat list \<Rightarrow> npfloat list list \<times> npfloat list list
     \<Rightarrow> py_error + (npfloat list list \<times> npfloat list list)" where
  "choose_sign scale [] (lfps, lfcs) = Inr (lfps, lfcs)"
| "choose_sign scale (j # js) (lfps, lfcs) =
     (case np_dot (column lfps j) scale of
        Inl err \<Rightarrow> Inl err
      | Inr d \<Rightarrow>
          (if np_less d (Fin 0)
           then choose_sign scale js (neg_column lfps j, neg_column lfcs j)
           else choose_sign scale js (lfps, lfcs)))"

text \<open>
  The last lines: the sign loop, \<open>lfps = lfps / scale\<close> (row \<open>i\<close> of the \<open>N \<times> K\<close>
  array divided by entry \<open>i\<close> of the column \<open>scale\<close>) and the transposition.
\<close>

definition sign_and_rescale ::
  "npfloat list \<Rightarrow> npfloat list list \<Rightarrow> npfloat list list
     \<Rightarrow> py_error + (npfloat list list \<times> npfloat list list)" where
  "sign_and_rescale scale lfps0 lfcs0 =
     (case choose_sign scale [0..<ncols lfps0] (lfps0, lfcs0) of
        Inl err \<Rightarrow> Inl err
      | Inr (lfps1, lfcs) \<Rightarrow>
          (case broadcast2 (\<lambda>r s. map (\<lambda>v. np_div v s) r) lfps1 scale of
             Inl err \<Rightarrow> Inl err
           | Inr lfps2 \<Rightarrow> Inr (lfcs, np_transpose lfps2)))"

definition lfca ::
  "numlib \<Rightarrow> ndarray \<Rightarrow> int \<Rightarrow> nat \<Rightarrow> npfloat list \<Rightarrow> filter_kwargs
     \<Rightarrow> py_error + (npfloat list list \<times> npfloat list list)" where
  "lfca lib x cutoff truncation weights kw =
     (case x of
        A2 x0 \<Rightarrow>
          (let scale = lfca_scale weights;
               x1 = center x0
           in case map_err (\<lambda>r. broadcast2 np_mul r scale) x1 of
                Inl err \<Rightarrow> Inl err
              | Inr xs \<Rightarrow>
                  (case Eof lib xs of
                     Inl err \<Rightarrow> Inl err
                   | Inr eofs_xr \<Rightarrow>
                       (let pcs0 = eof_pcs eofs_xr truncation
                        in case filter_pcs lib cutoff kw pcs0 [0..<truncation]
                                  (map (map (\<lambda>_. Fin 0)) pcs0) of
                             Inl err \<Rightarrow> Inl err
                           | Inr pcs_filt \<Rightarrow>
                               (case np_linalg_eigh lib (np_cov pcs_filt) of
                                  Inl err \<Rightarrow> Inl err
                                | Inr ev \<Rightarrow>
                                    (case sort_eig ev of
                                       Inl err \<Rightarrow> Inl err
                                     | Inr (eig_lowfreq, eigv_lowfreq) \<Rightarrow>
                                         (case matmul (np_transpose (eof_eofs eofs_xr truncation 1)) eigv_lowfreq of
                                            Inl err \<Rightarrow> Inl err
                                          | Inr uvec \<Rightarrow>
                                              (case matmul xs uvec of
                                                 Inl err \<Rightarrow> Inl err
                                               | Inr lfcs \<Rightarrow>
                                                   (case matmul (np_transpose (eof_eofs eofs_xr truncation 2)) eigv_lowfreq of
                                                      Inl err \<Rightarrow> Inl err
                                                    | Inr lfps \<Rightarrow> sign_and_rescale scale lfps lfcs))))))))
      | _ \<Rightarrow> Inl ValueError)"

subsection \<open>A stand-in for the libraries\<close>

text \<open>
  To apply the theorems at concrete inputs the library parameters need values. The
  stand-in fits the line \<open>t + 1\<close>, has a \<open>filtfilt\<close> that returns its input, an \<open>Eof\<close>
  solver whose components are unit vectors (as many as the data has rows and columns),
  and an \<open>eigh\<close> that returns the eigenvalues \<open>0, 1, 2, ...\<close> with the unit vectors.
\<close>

definition unit_rows :: "nat \<Rightarrow> nat \<Rightarrow> real \<Rightarrow> npfloat list list" where
  "unit_rows r c d = map (\<lambda>i. map (\<lambda>j. Fin (if i = j then d else 0)) [0..<c]) [0..<r]"

definition stub_solver :: "npfloat list list \<Rightarrow> eof_solver" where
  "stub_solver xs =
     \<lparr>eof_pcs = (\<lambda>k. unit_rows (length xs) (min k (min (length xs) (ncols xs))) 1),
      eof_eofs = (\<lambda>k sc. unit_rows (min k (min (length xs) (ncols xs))) (ncols xs) (- real sc))\<rparr>"

definition stub_lib :: numlib where
  "stub_lib =
     \<lparr>polyfit = (\<lambda>t y deg. Inr [Fin 1, Fin 1]),
      butter = (\<lambda>n wn. Inr ([Fin 1], [Fin 1])),
      filtfilt = (\<lambda>b a xs. Inr xs),
      Eof = (\<lambda>xs. Inr (stub_solver xs)),
      eigh = (\<lambda>m. Inr (map (\<lambda>i. Fin (real i)) [0..<length m], unit_rows (length m) (length m) 1))\<rparr>"

subsection \<open>The tie-breaking the specification describes\<close>

text \<open>
  The specification asks for the order of a stable sort on the negated eigenvalues, in
  which equal eigenvalues keep the ascending index order of the solver. It is stated
  here to be compared with \<open>eig_argsort\<close>.
\<close>

definition stable_descending_order :: "npfloat list \<Rightarrow> nat list" where
  "stable_descending_order e = sort_key (\<lambda>i. np_sort_key (np_neg (e ! i))) [0..<length e]"

subsection \<open>Well-formed inputs\<close>

text \<open>
  An array with \<open>n\<close> columns and finite entries, and the data matrix plus one constant per
  column (\<open>x + c\<close>, with \<open>c\<close> broadcast across the rows).
\<close>

definition finite_array :: "nat \<Rightarrow> npfloat list list \<Rightarrow> bool" where
  "finite_array n m = list_all (\<lambda>r. length r = n \<and> list_all is_fin r) m"

definition has_shape :: "nat \<Rightarrow> nat \<Rightarrow> 'a list list \<Rightarrow> bool" where
  \<comment> \<open>the array has shape \<open>(n, k)\<close>\<close>
  "has_shape n k m = (length m = n \<and> list_all (\<lambda>r. length r = k) m)"

definition add_offset :: "npfloat list list \<Rightarrow> npfloat list \<Rightarrow> npfloat list list" where
  "add_offset x c = map (\<lambda>r. map2 np_add r c) x"

section \<open>Properties\<close>

subsection \<open>The taps of \<open>low_pass_weights\<close>\<close>

lemma replicate_mid_update:
  "(replicate (2 * N + 1) (z::'a))[N := c] = replicate N z @ [c] @ replicate N z"
proof -
  have "replicate (2 * N + 1) z = replicate N z @ z # replicate N z"
    by (simp only: mult_2 add.assoc replicate_add replicate_Suc Suc_eq_plus1[symmetric] replicate_append_same)
       (simp add: replicate_append_same)
  then have "(replicate (2 * N + 1) z)[N := c] = (replicate N z @ z # replicate N z)[length (replicate N z) := c]"
    by simp
  also have "\<dots> = replicate N z @ c # replicate N z"
    by (rule list_update_length)
  finally show ?thesis by simp
qed

lemma lpw_step1:
  assumes lv: "length vals = M"
  shows "setslice_rev (replicate (Suc M) (0::real) @ [c] @ replicate (Suc M) 0) (int (Suc M) - 1) 0 vals
          = Inr ([0] @ rev vals @ [c] @ replicate (Suc M) 0)"
proof -
  have hi: "py_index_neg (Suc (Suc (Suc (M + M)))) (int M) = int M"
    by (simp add: py_index_neg_def)
  have lo: "py_index_neg (Suc (Suc (Suc (M + M)))) 0 = 0"
    by (simp add: py_index_neg_def)
  show ?thesis
    using lv
    by (simp add: setslice_rev_def hi lo broadcast_to_def splice_def Let_def)
qed

lemma lpw_step2:
  assumes lv: "length vals = M"
  shows "setslice ([0::real] @ rev vals @ [c] @ replicate (Suc M) 0) (Some (int (Suc M) + 1)) (Some (- 1)) vals
          = Inr ([0] @ rev vals @ [c] @ vals @ [0])"
proof -
  have a: "nat (2 + int M) = Suc (Suc M)" by simp
  have b: "nat (2 + 2 * int M) = Suc (Suc (M + M))" by simp
  have "drop M (replicate (Suc M) (0::real)) = replicate (Suc M - M) 0"
    by (rule drop_replicate)
  then have d: "drop M (0 # replicate M (0::real)) = [0]" by simp
  show ?thesis
    using lv
    by (simp add: setslice_def slice_start_def slice_stop_def py_index_def broadcast_to_def splice_def Let_def a b d)
qed

lemma lpw_step3:
  assumes lv: "length vals = M"
  shows "getslice ([0::real] @ rev vals @ [c] @ vals @ [0]) (Some 1) (Some (- 1)) = rev vals @ [c] @ vals"
proof -
  have b: "nat (2 + 2 * int M) = Suc (Suc (M + M))" by simp
  show ?thesis
    using lv by (simp add: getslice_def slice_start_def slice_stop_def py_index_def Let_def b)
qed


lemma setitem_in_range: "i < length xs \<Longrightarrow> setitem xs (int i) v = Inr (xs[i := v])"
  by (simp add: setitem_def)

lemma np_zeros_nat: "np_zeros (int k) = Inr (replicate k 0)"
  by (simp add: np_zeros_def)

lemma setitem_mid:
  "setitem (replicate (2 * Suc M + 1) (0::real)) (int (Suc M)) c
     = Inr (replicate (Suc M) 0 @ [c] @ replicate (Suc M) 0)"
proof -
  have "Suc M < length (replicate (2 * Suc M + 1) (0::real))" by simp
  then have "setitem (replicate (2 * Suc M + 1) (0::real)) (int (Suc M)) c
          = Inr ((replicate (2 * Suc M + 1) 0)[Suc M := c])"
    by (rule setitem_in_range)
  then show ?thesis
    by (simp only: replicate_mid_update)
qed

lemma lpw_closed:
  assumes "1 \<le> window"
  shows "low_pass_weights window cutoff =
     (let n = (window - 1) div 2 + 1;
          vals = map (lanczos_tap cutoff n) (map real_of_int [1..n - 1])
      in Inr (rev vals @ [2 * cutoff] @ vals))"
proof -
  define M where "M = nat ((window - 1) div 2)"
  define vals where "vals = map (lanczos_tap cutoff (int (Suc M))) (map real_of_int [1..int M])"
  have n: "(window - 1) div 2 = int M" using assms by (simp add: M_def)
  have lv: "length vals = M" by (simp add: vals_def)
  have m2: "map2 (*) (map (\<lambda>k. sin (2 * pi * cutoff * k) / (pi * k)) (map real_of_int [1..int M]))
                 (map (\<lambda>k. sin (pi * k / real_of_int (int (Suc M))) * real_of_int (int (Suc M)) / (pi * k)) (map real_of_int [1..int M]))
            = vals"
    unfolding vals_def lanczos_tap_def by (simp add: map2_map_map)
  have "2 * (int M + 1) + 1 = int (2 * Suc M + 1)" by simp
  then have z: "np_zeros (2 * (int M + 1) + 1) = Inr (replicate (2 * Suc M + 1) 0)"
    by (simp only: np_zeros_nat)
  have d: "(2 * (int M + 1) + 1) div 2 = int (Suc M)" by simp
  have e: "int (Suc M) - 1 = int M" "int M + 1 = int (Suc M)" by simp_all
  have "low_pass_weights window cutoff = Inr (rev vals @ [2 * cutoff] @ vals)"
    unfolding low_pass_weights_def Let_def n z d sum.case setitem_mid e(1) m2
    using lpw_step1[OF lv, of "2 * cutoff"] lpw_step2[OF lv, of "2 * cutoff"] lpw_step3[OF lv, of "2 * cutoff"]
    by (simp only: e sum.case)
  then show ?thesis
    by (simp only: Let_def n e vals_def)
qed

lemma lpw_small:
  assumes "window = 0 \<or> window = - 1"
  shows "low_pass_weights window cutoff = Inr []"
proof -
  have n: "(window - 1) div 2 = - 1" using assms by auto
  show ?thesis
    by (simp add: low_pass_weights_def n np_zeros_def setitem_def setslice_rev_def
          py_index_neg_def broadcast_to_def splice_def setslice_def slice_start_def
          slice_stop_def py_index_def getslice_def)
qed

lemma lpw_negative:
  assumes "window \<le> - 2"
  shows "low_pass_weights window cutoff = Inl ValueError"
proof -
  have "(window - 1) div 2 \<le> - 2" using assms by linarith
  then show ?thesis
    by (simp add: low_pass_weights_def np_zeros_def Let_def)
qed

lemma lpw_raises_iff: "isl (low_pass_weights window cutoff) \<longleftrightarrow> window \<le> - 2"
proof (cases "window \<le> - 2")
  case True
  then show ?thesis by (simp add: lpw_negative)
next
  case False
  then consider "window = 0 \<or> window = - 1" | "1 \<le> window" by linarith
  then show ?thesis
  proof cases
    case 1
    then show ?thesis using False by (simp add: lpw_small)
  next
    case 2
    then show ?thesis using False by (simp add: lpw_closed Let_def)
  qed
qed

lemma lpw_odd_length:
  assumes "1 \<le> window" "odd window" "low_pass_weights window cutoff = Inr taps"
  shows "length taps = nat window" "rev taps = taps"
proof -
  from assms(2) obtain m where m: "window = 2 * m + 1" by (auto elim: oddE)
  with assms(1) have m0: "0 \<le> m" by simp
  have n: "(window - 1) div 2 = m" using m by simp
  define vals where "vals = map (lanczos_tap cutoff (m + 1)) (map real_of_int [1..m])"
  have "low_pass_weights window cutoff = Inr (rev vals @ [2 * cutoff] @ vals)"
    unfolding lpw_closed[OF assms(1)] Let_def n vals_def by simp
  with assms(3) have t: "taps = rev vals @ [2 * cutoff] @ vals" by simp
  have lv: "length vals = nat m" by (simp add: vals_def)
  show "length taps = nat window"
    using m m0 by (simp add: t lv nat_add_distrib nat_mult_distrib)
  show "rev taps = taps"
    by (simp add: t)
qed

text \<open>
  C5. The claim: \<open>low_pass_weights\<close> fails for window length 1 and for a non-positive
  cutoff. The code validates neither argument. For window length 1 it returns the single
  tap \<open>2 * cutoff\<close>; it raises exactly when the window is at most \<open>-2\<close> (a negative
  array size), whatever the cutoff.
\<close>

theorem low_pass_weights_validates_nothing:
  "low_pass_weights 1 cutoff = Inr [2 * cutoff]
   \<and> (isl (low_pass_weights window cutoff) \<longleftrightarrow> window \<le> - 2)"
  by (simp add: lpw_closed Let_def lpw_raises_iff)

theorem low_pass_weights_window1_returns:
  "low_pass_weights 1 (1 / 10) = Inr [1 / 5] \<and> low_pass_weights 3 0 = Inr [0, 0, 0]"
  by (simp add: lpw_closed Let_def lanczos_tap_def)

text \<open>
  C9. For an odd window length \<open>W \<ge> 3\<close> and a cutoff \<open>0 < c < 1/2\<close>,
  \<open>low_pass_weights\<close> returns \<open>W\<close> taps and the taps are symmetric: the \<open>i\<close>-th equals
  the \<open>(L-1-i)\<close>-th.
\<close>

theorem low_pass_weights_symmetric:
  assumes "odd window" "3 \<le> window" "0 < cutoff" "cutoff < 1 / 2"
  shows "\<exists>taps. low_pass_weights window cutoff = Inr taps \<and> length taps = nat window
           \<and> (\<forall>i < length taps. taps ! i = taps ! (length taps - 1 - i))"
proof -
  have w1: "1 \<le> window" using assms(2) by simp
  then have "\<not> isl (low_pass_weights window cutoff)"
    by (simp add: lpw_raises_iff)
  then obtain taps where t: "low_pass_weights window cutoff = Inr taps"
    by (cases "low_pass_weights window cutoff") auto
  have len: "length taps = nat window" and sym: "rev taps = taps"
    using lpw_odd_length[OF w1 assms(1) t] by simp_all
  have "\<forall>i < length taps. taps ! i = taps ! (length taps - 1 - i)"
  proof (intro allI impI)
    fix i assume i: "i < length taps"
    have "taps ! i = rev taps ! i" by (simp add: sym)
    also have "\<dots> = taps ! (length taps - Suc i)" using i by (rule rev_nth)
    finally show "taps ! i = taps ! (length taps - 1 - i)" by simp
  qed
  with t len show ?thesis by blast
qed

theorem low_pass_weights_symmetric_witness:
  "odd (3::int) \<and> (0::real) < 1 / 4 \<and> (1 / 4 :: real) < 1 / 2
   \<and> (\<exists>taps. low_pass_weights 3 (1 / 4) = Inr taps \<and> length taps = 3
         \<and> (\<forall>i < length taps. taps ! i = taps ! (length taps - 1 - i)))"
  using low_pass_weights_symmetric [of 3 "1 / 4"] by simp

subsection \<open>Padding\<close>

lemma getslice_all: "getslice xs None None = xs"
  by (simp add: getslice_def slice_start_def slice_stop_def)

lemma getslice_front: "getslice xs None (Some (int w)) = take w xs"
  by (simp add: getslice_def slice_start_def slice_stop_def py_index_def min_def)

lemma getslice_back:
  assumes "0 < w" "w \<le> length xs"
  shows "getslice xs (Some (- int w)) None = drop (length xs - w) xs"
proof -
  have "nat (int (length xs) - int w) = length xs - w" by simp
  then show ?thesis
    using assms by (simp add: getslice_def slice_start_def slice_stop_def py_index_def)
qed

lemma setslice_mid:
  assumes "0 < w" "length xs = w + L + w" "length v = L"
  shows "setslice xs (Some (int w)) (Some (- int w)) v = Inr (take w xs @ v @ drop (w + L) xs)"
proof -
  have e: "nat (int w + int L) = w + L" by simp
  show ?thesis
    using assms
    by (simp add: setslice_def slice_start_def slice_stop_def py_index_def broadcast_to_def
          splice_def e Let_def)
qed

lemma setslice_front:
  assumes "length v = w" "w \<le> length xs"
  shows "setslice xs None (Some (int w)) v = Inr (v @ drop w xs)"
  using assms
  by (simp add: setslice_def slice_start_def slice_stop_def py_index_def broadcast_to_def
        splice_def min_def)

lemma setslice_back:
  assumes "0 < w" "length v = w" "w \<le> length xs"
  shows "setslice xs (Some (- int w)) None v = Inr (take (length xs - w) xs @ v)"
proof -
  have "nat (int (length xs) - int w) = length xs - w" by simp
  then show ?thesis
    using assms
    by (simp add: setslice_def slice_start_def slice_stop_def py_index_def broadcast_to_def
        splice_def)
qed





lemma padding_core:
  assumes w: "0 < w" "w \<le> length ts_in" and A: "length A = w" and B: "length B = w"
    and zs: "length Z = w + length ts_in + w"
  shows "(case setslice Z (Some (int w)) (Some (- int w)) (getslice ts_in None None) of
            Inl err \<Rightarrow> Inl err
          | Inr p1 \<Rightarrow>
             (case setslice p1 None (Some (int w)) A of
                Inl err \<Rightarrow> Inl err
              | Inr p2 \<Rightarrow> setslice p2 (Some (- int w)) None B)) = Inr (A @ ts_in @ B)"
proof -
  let ?L = "length ts_in"
  have s1: "setslice Z (Some (int w)) (Some (- int w)) (getslice ts_in None None)
              = Inr (take w Z @ ts_in @ drop (w + ?L) Z)"
    using setslice_mid[OF w(1) zs, of ts_in] by (simp add: getslice_all)
  have s2: "setslice (take w Z @ ts_in @ drop (w + ?L) Z) None (Some (int w)) A
              = Inr (A @ ts_in @ drop (w + ?L) Z)"
    using setslice_front[OF A, of "take w Z @ ts_in @ drop (w + ?L) Z"] zs by simp
  have s3: "setslice (A @ ts_in @ drop (w + ?L) Z) (Some (- int w)) None B
              = Inr (A @ ts_in @ B)"
    using setslice_back[OF w(1) B, of "A @ ts_in @ drop (w + ?L) Z"] zs A by simp
  show ?thesis by (simp add: s1 s2 s3)
qed


lemma filter_padding_closed:
  assumes w: "0 < window" "window \<le> int (length ts)"
    and ft: "ftype = ''mirror'' \<or> ftype = ''periodic''"
    and pf: "detrend \<Longrightarrow> polyfit lib [0..int (length ts) - 1] ts detrend_poly = Inr z"
  shows "filter_padding lib ts window ftype detrend detrend_poly =
     Inr (if detrend
          then map2 np_add
                 (padded ftype (nat window) (map2 np_sub ts (map (polyval z) [0..int (length ts) - 1])))
                 (map (polyval z) [- window..int (length ts) + window - 1])
          else padded ftype (nat window) ts)"
proof -
  define w where "w = nat window"
  have iw: "window = int w" using w by (simp add: w_def)
  define ts_in where
    "ts_in = (if detrend then map2 np_sub ts (map (polyval z) [0..int (length ts) - 1]) else ts)"
  have len_in: "length ts_in = length ts" by (simp add: ts_in_def)
  have wl: "0 < w" "w \<le> length ts_in" using w by (simp_all add: w_def len_in)
  have z0: "np_zeros (2 * window + int (length ts)) = Inr (replicate (w + length ts_in + w) 0)"
    using w by (simp add: np_zeros_def iw len_in nat_add_distrib nat_mult_distrib)
  have lz: "length (map Fin (replicate (w + length ts_in + w) (0::real))) = w + length ts_in + w"
    by simp
  have gf: "getslice ts_in None (Some window) = take w ts_in"
    unfolding iw by (rule getslice_front)
  have gb: "getslice ts_in (Some (- window)) None = drop (length ts_in - w) ts_in"
    unfolding iw by (rule getslice_back[OF wl])
  have core_m: "(case setslice (map Fin (replicate (w + length ts_in + w) 0)) (Some window) (Some (- window)) (getslice ts_in None None) of
            Inl err \<Rightarrow> Inl err
          | Inr p1 \<Rightarrow>
             (case setslice p1 None (Some window) (rev (take w ts_in)) of
                Inl err \<Rightarrow> Inl err
              | Inr p2 \<Rightarrow> setslice p2 (Some (- window)) None (rev (drop (length ts_in - w) ts_in))))
           = Inr (rev (take w ts_in) @ ts_in @ rev (drop (length ts_in - w) ts_in))"
    unfolding iw using wl by (intro padding_core) simp_all
  have core_p: "(case setslice (map Fin (replicate (w + length ts_in + w) 0)) (Some window) (Some (- window)) (getslice ts_in None None) of
            Inl err \<Rightarrow> Inl err
          | Inr p1 \<Rightarrow>
             (case setslice p1 None (Some window) (drop (length ts_in - w) ts_in) of
                Inl err \<Rightarrow> Inl err
              | Inr p2 \<Rightarrow> setslice p2 (Some (- window)) None (take w ts_in)))
           = Inr (drop (length ts_in - w) ts_in @ ts_in @ take w ts_in)"
    unfolding iw using wl by (intro padding_core) simp_all
  show ?thesis
  proof (cases detrend)
    case True
    then have tin: "ts_in = map2 np_sub ts (map (polyval z) [0..int (length ts) - 1])"
      by (simp add: ts_in_def)
    show ?thesis
      using ft core_m core_p
      unfolding filter_padding_def z0 Let_def
      by (auto simp: True pf tin[symmetric] gf gb padded_def w_def[symmetric] split: sum.splits)
  next
    case False
    then have tin: "ts_in = ts" by (simp add: ts_in_def)
    show ?thesis
      using ft core_m core_p
      unfolding filter_padding_def z0 Let_def
      by (auto simp: False tin gf[unfolded tin] gb[unfolded tin] padded_def w_def[symmetric] split: sum.splits)
  qed
qed






subsection \<open>Filtering\<close>

lemma setslice_length:
  assumes "setslice xs a b v = Inr ys"
  shows "length ys = length xs"
proof -
  define s where "s = slice_start (length xs) a"
  define e where "e = slice_stop (length xs) b"
  have e: "e \<le> length xs"
    by (auto simp: e_def slice_stop_def py_index_def split: option.splits)
  from assms obtain v' where v': "broadcast_to (e - s) v = Inr v'" and ys: "ys = splice xs s (e - s) v'"
    by (auto simp: setslice_def Let_def s_def e_def split: sum.splits)
  from v' have "length v' = e - s"
    by (auto simp: broadcast_to_def split: if_splits)
  then show ?thesis
    using e by (auto simp: ys splice_def)
qed

lemma filter_padding_length:
  assumes "filter_padding lib ts window ftype detrend detrend_poly = Inr ys"
  shows "length ys = nat (2 * window + int (length ts))"
proof -
  from assms obtain zs where zs: "np_zeros (2 * window + int (length ts)) = Inr zs"
    by (auto simp: filter_padding_def split: sum.splits)
  then have lz: "length (map Fin zs) = nat (2 * window + int (length ts))"
    by (auto simp: np_zeros_def split: if_splits)
  have lt: "length [- window..int (length ts) + window - 1] = nat (2 * window + int (length ts))"
    by (simp add: algebra_simps)
  from assms zs show ?thesis
    using lz lt
    by (auto simp: filter_padding_def Let_def split: sum.splits if_splits dest!: setslice_length)
qed

lemma convolve_same_length:
  assumes "convolve_same a v = Inr y"
  shows "length y = length a"
proof -
  from assms have ne: "v \<noteq> []" and y: "y = take (length a) (drop ((length v - 1) div 2) (convolve_full a v))"
    by (auto simp: convolve_same_def split: if_splits)
  from ne obtain m where m: "length v = Suc m" by (cases v) auto
  have "length (convolve_full a v) = length a + m"
    by (simp add: convolve_full_def m)
  moreover have "m div 2 \<le> m" by simp
  ultimately show ?thesis
    by (simp add: y m)
qed

lemma getslice_trim:
  assumes "length y = L + 2 * p" "0 < p"
  shows "length (getslice y (Some (int p)) (Some (- int p))) = L"
proof -
  have "nat (int L + int p) = L + p" by simp
  then show ?thesis
    using assms by (simp add: getslice_def slice_start_def slice_stop_def py_index_def)
qed

lemma filter_ts_taps:
  assumes "1 \<le> cutoff"
  shows "\<exists>taps. low_pass_weights (cutoff * 2 + 1) (1 / real_of_int cutoff) = Inr taps
           \<and> taps \<noteq> [] \<and> int ((length taps + 1) div 2) = cutoff + 1"
proof -
  have w1: "1 \<le> cutoff * 2 + 1" and od: "odd (cutoff * 2 + 1)" using assms by simp_all
  have "\<not> isl (low_pass_weights (cutoff * 2 + 1) (1 / real_of_int cutoff))"
    using assms by (simp add: lpw_raises_iff)
  then obtain taps where t: "low_pass_weights (cutoff * 2 + 1) (1 / real_of_int cutoff) = Inr taps"
    by (cases "low_pass_weights (cutoff * 2 + 1) (1 / real_of_int cutoff)") auto
  have len: "length taps = nat (cutoff * 2 + 1)"
    using lpw_odd_length(1)[OF w1 od t] .
  then have "taps \<noteq> []" using assms by auto
  moreover have "int ((length taps + 1) div 2) = cutoff + 1"
    using assms by (simp add: len) 
  ultimately show ?thesis using t by blast
qed

text \<open>
  C6. For every series, every cutoff \<open>\<ge> 1\<close>, both filter kinds and both padding
  kinds, a series returned by \<open>filter_ts\<close> is as long as the input series
  (\<open>filtfilt\<close> returning as many elements as it is given). With the Lanczos filter the
  series is returned whenever it has at least \<open>cutoff + 1\<close> elements and the
  polynomial fit, if asked for, succeeds.
\<close>

theorem filter_ts_length:
  assumes c: "1 \<le> cutoff"
    and ft: "filter_type = ''lanczos'' \<or> filter_type = ''butter''"
    and pt: "padding_type = ''mirror'' \<or> padding_type = ''periodic''"
    and ff: "\<forall>b a xs ys. filtfilt lib b a xs = Inr ys \<longrightarrow> length ys = length xs"
  shows "(\<forall>ys. filter_ts lib ts cutoff filter_type padding_type detrend detrend_poly = Inr ys
             \<longrightarrow> length ys = length ts)
       \<and> (filter_type = ''lanczos'' \<and> cutoff + 1 \<le> int (length ts)
            \<and> (detrend \<longrightarrow> \<not> isl (polyfit lib [0..int (length ts) - 1] ts detrend_poly))
          \<longrightarrow> \<not> isl (filter_ts lib ts cutoff filter_type padding_type detrend detrend_poly))"
proof -
  from filter_ts_taps[OF c] obtain taps where
    t: "low_pass_weights (cutoff * 2 + 1) (1 / real_of_int cutoff) = Inr taps"
    and tne: "taps \<noteq> []" and np: "int ((length taps + 1) div 2) = cutoff + 1" by blast
  have c0: "cutoff \<noteq> 0" using c by simp
  have unf: "filter_ts lib ts cutoff filter_type padding_type detrend detrend_poly =
     (case filter_padding lib ts (cutoff + 1) padding_type detrend detrend_poly of
        Inl err \<Rightarrow> Inl err
      | Inr ts_mirr \<Rightarrow>
          (if filter_type = ''lanczos'' then
             (case convolve_same ts_mirr (map Fin taps) of
                Inl err \<Rightarrow> Inl err
              | Inr y \<Rightarrow> Inr (getslice y (Some (cutoff + 1)) (Some (- (cutoff + 1)))))
           else if filter_type = ''butter'' then
             (case butter lib 3 (1 / (real_of_int cutoff / 2)) of
                Inl err \<Rightarrow> Inl err
              | Inr (b, a) \<Rightarrow>
                  (case filtfilt lib b a ts_mirr of
                     Inl err \<Rightarrow> Inl err
                   | Inr y \<Rightarrow> Inr (getslice y (Some (cutoff + 1)) (Some (- (cutoff + 1))))))
           else Inl ValueError))"
    unfolding filter_ts_def t sum.case Let_def np using c0 by simp
  define p where "p = nat (cutoff + 1)"
  have ip: "cutoff + 1 = int p" and p0: "0 < p" using c by (simp_all add: p_def)
  have trim: "length (getslice y (Some (cutoff + 1)) (Some (- (cutoff + 1)))) = length ts"
    if "length y = nat (2 * (cutoff + 1) + int (length ts))" for y :: "npfloat list"
  proof -
    have "length y = length ts + 2 * p" using that by (simp add: ip)
    then show ?thesis unfolding ip using p0 by (rule getslice_trim)
  qed
  have part1: "length ys = length ts"
    if r: "filter_ts lib ts cutoff filter_type padding_type detrend detrend_poly = Inr ys" for ys
  proof -
    note r' = r[unfolded unf]
    from r' obtain ts_mirr where
      fp: "filter_padding lib ts (cutoff + 1) padding_type detrend detrend_poly = Inr ts_mirr"
      by (auto split: sum.splits)
    have lm: "length ts_mirr = nat (2 * (cutoff + 1) + int (length ts))"
      using filter_padding_length[OF fp] .
    from ft show ?thesis
    proof
      assume l: "filter_type = ''lanczos''"
      with r' fp obtain y where y: "convolve_same ts_mirr (map Fin taps) = Inr y"
        and ys: "ys = getslice y (Some (cutoff + 1)) (Some (- (cutoff + 1)))"
        by (auto split: sum.splits)
      show ?thesis using trim[of y] convolve_same_length[OF y] lm by (simp add: ys)
    next
      assume b: "filter_type = ''butter''"
      with r' fp obtain bb aa y where y: "filtfilt lib bb aa ts_mirr = Inr y"
        and ys: "ys = getslice y (Some (cutoff + 1)) (Some (- (cutoff + 1)))"
        by (auto split: sum.splits prod.splits)
      have "length y = length ts_mirr" using ff y by blast
      then show ?thesis using trim[of y] lm by (simp add: ys)
    qed
  qed
  have part2: "\<not> isl (filter_ts lib ts cutoff filter_type padding_type detrend detrend_poly)"
    if l: "filter_type = ''lanczos''" and len: "cutoff + 1 \<le> int (length ts)"
      and pf: "detrend \<longrightarrow> \<not> isl (polyfit lib [0..int (length ts) - 1] ts detrend_poly)"
  proof -
    obtain z where z: "detrend \<Longrightarrow> polyfit lib [0..int (length ts) - 1] ts detrend_poly = Inr z"
      using pf by (cases "polyfit lib [0..int (length ts) - 1] ts detrend_poly") auto
    have w0: "0 < cutoff + 1" using c by simp
    from filter_padding_closed[OF w0 len pt z] obtain ts_mirr where
      fp: "filter_padding lib ts (cutoff + 1) padding_type detrend detrend_poly = Inr ts_mirr"
      by blast
    have "length ts_mirr = nat (2 * (cutoff + 1) + int (length ts))"
      using filter_padding_length[OF fp] .
    then have "ts_mirr \<noteq> []" using c by auto
    then show ?thesis
      unfolding unf using tne by (simp add: fp l convolve_same_def)
  qed
  show ?thesis using part1 part2 by blast
qed

theorem filter_ts_length_witness:
  "\<exists>ys. filter_ts stub_lib [Fin 1, Fin 0] 1 ''lanczos'' ''mirror'' False 1 = Inr ys
        \<and> length ys = length [Fin 1, Fin 0]"
proof -
  have ff: "\<forall>b a xs ys. filtfilt stub_lib b a xs = Inr ys \<longrightarrow> length ys = length xs"
    by (simp add: stub_lib_def)
  note t = filter_ts_length [of 1 "''lanczos''" "''mirror''" stub_lib "[Fin 1, Fin 0]" False 1]
  have "\<not> isl (filter_ts stub_lib [Fin 1, Fin 0] 1 ''lanczos'' ''mirror'' False 1)"
    using t ff by simp
  then obtain ys where ys: "filter_ts stub_lib [Fin 1, Fin 0] 1 ''lanczos'' ''mirror'' False 1 = Inr ys"
    by (cases "filter_ts stub_lib [Fin 1, Fin 0] 1 ''lanczos'' ''mirror'' False 1") auto
  then have "length ys = length [Fin 1, Fin 0]"
    using t ff by simp
  with ys show ?thesis by blast
qed

lemma short_pad: "filter_padding lib [Fin 1, Fin 2] 6 ''mirror'' False 1 = Inl ValueError"
  by (simp add: filter_padding_def np_zeros_def setslice_def slice_start_def slice_stop_def
        py_index_def broadcast_to_def splice_def getslice_def Let_def)

text \<open>
  C8. When the filter kind is neither \<open>lanczos\<close> nor \<open>butter\<close>, or the padding kind
  is neither \<open>mirror\<close> nor \<open>periodic\<close>, \<open>filter_ts\<close> raises and returns no series.
  The converse fails: it also raises with supported kinds, for instance on a series
  shorter than the padding length.
\<close>

theorem filter_ts_unsupported_kind_raises:
  assumes "(filter_type \<noteq> ''lanczos'' \<and> filter_type \<noteq> ''butter'')
           \<or> (padding_type \<noteq> ''mirror'' \<and> padding_type \<noteq> ''periodic'')"
  shows "\<exists>err. filter_ts lib ts cutoff filter_type padding_type detrend detrend_poly = Inl err"
proof -
  have pad: "\<exists>err. filter_padding lib ts w padding_type detrend detrend_poly = Inl err"
    if "padding_type \<noteq> ''mirror''" "padding_type \<noteq> ''periodic''" for w
    using that by (auto simp: filter_padding_def Let_def split: sum.splits)
  from assms show ?thesis
  proof
    assume "filter_type \<noteq> ''lanczos'' \<and> filter_type \<noteq> ''butter''"
    then show ?thesis
      by (auto simp: filter_ts_def Let_def split: sum.splits)
  next
    assume p: "padding_type \<noteq> ''mirror'' \<and> padding_type \<noteq> ''periodic''"
    show ?thesis
    proof (cases "low_pass_weights (cutoff * 2 + 1) (1 / real_of_int cutoff)")
      case (Inl e)
      then show ?thesis by (simp add: filter_ts_def)
    next
      case (Inr taps)
      from pad[of "int ((length taps + 1) div 2)"] p obtain err where
        "filter_padding lib ts (int ((length taps + 1) div 2)) padding_type detrend detrend_poly = Inl err"
        by blast
      then show ?thesis
        unfolding filter_ts_def Inr sum.case Let_def by simp
    qed
  qed
qed

theorem filter_ts_unsupported_kind_raises_witness:
  "\<exists>err. filter_ts stub_lib [Fin 1, Fin 0] 1 ''butterworth'' ''mirror'' False 1 = Inl err"
  using filter_ts_unsupported_kind_raises [of "''butterworth''" "''mirror''" stub_lib "[Fin 1, Fin 0]" 1 False 1]
  by simp

theorem filter_ts_short_series_raises:
  "filter_ts stub_lib [Fin 1, Fin 2] 5 ''lanczos'' ''mirror'' False 1 = Inl ValueError"
proof -
  obtain taps where t: "low_pass_weights (5 * 2 + 1) (1 / real_of_int 5) = Inr taps"
    and np: "int ((length taps + 1) div 2) = 5 + 1"
    using filter_ts_taps[of 5] by auto
  show ?thesis
    unfolding filter_ts_def t sum.case Let_def np
    by (simp add: short_pad)
qed

subsection \<open>The order of the low-frequency eigenvalues\<close>

lemma sorted_wrt_filter_nth:
  "sorted_wrt R (filter P xs) \<Longrightarrow> a < b \<Longrightarrow> b < length xs \<Longrightarrow> P (xs ! a) \<Longrightarrow> P (xs ! b)
     \<Longrightarrow> R (xs ! a) (xs ! b)"
proof (induction xs arbitrary: a b)
  case Nil
  then show ?case by simp
next
  case (Cons x xs)
  obtain b' where b': "b = Suc b'" using Cons.prems(2) by (cases b) auto
  have sw: "sorted_wrt R (filter P xs)"
    using Cons.prems(1) by (cases "P x") simp_all
  show ?case
  proof (cases a)
    case 0
    then have px: "P x" using Cons.prems(4) by simp
    have "xs ! b' \<in> set (filter P xs)"
      using Cons.prems(3,5) b' by simp
    then show ?thesis
      using Cons.prems(1) px 0 b' by simp
  next
    case (Suc a')
    then show ?thesis
      using Cons.IH[OF sw, of a' b'] Cons.prems b' by simp
  qed
qed

lemma np_argsort_props:
  shows np_argsort_length: "length (np_argsort e) = length e"
    and np_argsort_sorted: "sorted (map (\<lambda>i. np_sort_key (e ! i)) (np_argsort e))"
    and np_argsort_set: "set (np_argsort e) = {0..<length e}"
  by (simp_all add: np_argsort_def)

lemma np_argsort_stable:
  assumes "a < b" "b < length e"
    and "np_sort_key (e ! (np_argsort e ! a)) = np_sort_key (e ! (np_argsort e ! b))"
  shows "np_argsort e ! a < np_argsort e ! b"
proof -
  let ?f = "\<lambda>i. np_sort_key (e ! i)"
  let ?k = "?f (np_argsort e ! a)"
  have "filter (\<lambda>i. ?f i = ?k) (np_argsort e) = filter (\<lambda>i. ?f i = ?k) [0..<length e]"
    unfolding np_argsort_def by (rule sort_key_stable)
  moreover have "sorted_wrt (<) (filter (\<lambda>i. ?f i = ?k) [0..<length e])"
    by (rule sorted_wrt_filter) (simp add: sorted_wrt_upt)
  ultimately have sw: "sorted_wrt (<) (filter (\<lambda>i. ?f i = ?k) (np_argsort e))" by simp
  have b: "b < length (np_argsort e)" using assms(2) by (simp add: np_argsort_length)
  have pa: "?f (np_argsort e ! a) = ?k" ..
  have pb: "?f (np_argsort e ! b) = ?k" using assms(3) by (rule sym)
  show ?thesis
    by (rule sorted_wrt_filter_nth[where P = "\<lambda>i. ?f i = ?k", OF sw assms(1) b pa pb])
qed

lemma eig_argsort_nth:
  assumes "p < length e"
  shows "eig_argsort e ! p = np_argsort e ! (length e - 1 - p)"
  using assms by (simp add: eig_argsort_def rev_nth np_argsort_length)

lemma np_sort_key_fin: "is_fin a \<Longrightarrow> is_fin b \<Longrightarrow> np_sort_key b \<le> np_sort_key a \<Longrightarrow> np_ge a b"
  by (cases a; cases b) auto

lemma argsort_tie: "np_argsort [Fin 1, Fin 1] = [0, 1]"
  by (simp add: np_argsort_def)

lemma argsort_three: "np_argsort [Fin 1, Fin 3, Fin 3] = [0, 1, 2]"
  by (simp add: np_argsort_def upt_rec)


text \<open>
  C2. \<open>lfca\<close> returns the eigenvalues of the filtered covariance in non-increasing
  order, with the eigenvector columns reordered to match. The order is the reverse of the
  ascending \<open>argsort\<close>: equal eigenvalues therefore come out in descending order of
  their index in the solver's output, not in the ascending order that a stable sort on
  the negated eigenvalues would keep.
\<close>

theorem sort_eig_descending:
  assumes "sort_eig (eig, eigv) = Inr (eig', eigv')"
  shows "length eig' = length eig
    \<and> (\<forall>p q. p \<le> q \<and> q < length eig' \<longrightarrow> np_sort_key (eig' ! q) \<le> np_sort_key (eig' ! p))
    \<and> (list_all is_fin eig \<longrightarrow> (\<forall>p q. p \<le> q \<and> q < length eig' \<longrightarrow> np_ge (eig' ! p) (eig' ! q)))
    \<and> (\<forall>p q. p < q \<and> q < length eig' \<and> eig' ! p = eig' ! q
           \<longrightarrow> eig_argsort eig ! q < eig_argsort eig ! p)
    \<and> (\<forall>p < length eig'. eig' ! p = eig ! (eig_argsort eig ! p)
           \<and> column eigv' p = column eigv (eig_argsort eig ! p))"
proof -
  let ?n = "length eig"
  let ?o = "eig_argsort eig"
  from assms have e': "eig' = map (\<lambda>i. eig ! i) ?o"
    and v': "eigv' = map (\<lambda>r. map (\<lambda>i. r ! i) ?o) eigv"
    by (auto simp: sort_eig_def take_columns_def split: sum.splits if_splits)
  have lo: "length ?o = ?n" by (simp add: eig_argsort_def np_argsort_length)
  have len: "length eig' = ?n" by (simp add: e' lo)
  have nth: "eig' ! p = eig ! (np_argsort eig ! (?n - 1 - p))" if "p < ?n" for p
    using that by (simp add: e' lo eig_argsort_nth)
  have mono: "np_sort_key (eig' ! q) \<le> np_sort_key (eig' ! p)" if "p \<le> q" "q < ?n" for p q
  proof -
    have "map (\<lambda>i. np_sort_key (eig ! i)) (np_argsort eig) ! (?n - 1 - q)
            \<le> map (\<lambda>i. np_sort_key (eig ! i)) (np_argsort eig) ! (?n - 1 - p)"
      using that by (intro sorted_nth_mono[OF np_argsort_sorted]) (simp_all add: np_argsort_length)
    then show ?thesis
      using that by (simp add: nth np_argsort_length)
  qed
  have inset: "eig' ! p \<in> set eig" if "p < ?n" for p
  proof -
    have "np_argsort eig ! (?n - 1 - p) \<in> set (np_argsort eig)"
      using that by (intro nth_mem) (simp add: np_argsort_length)
    then have "np_argsort eig ! (?n - 1 - p) < ?n" by (simp add: np_argsort_set)
    then show ?thesis using that by (simp add: nth)
  qed
  have fin: "np_ge (eig' ! p) (eig' ! q)" if "list_all is_fin eig" "p \<le> q" "q < ?n" for p q
  proof -
    have "is_fin (eig' ! p)" "is_fin (eig' ! q)"
      using that inset[of p] inset[of q] by (auto simp: list_all_iff)
    then show ?thesis using mono[OF that(2,3)] by (rule np_sort_key_fin)
  qed
  have ties: "?o ! q < ?o ! p" if "p < q" "q < ?n" "eig' ! p = eig' ! q" for p q
  proof -
    have "np_sort_key (eig ! (np_argsort eig ! (?n - 1 - q)))
            = np_sort_key (eig ! (np_argsort eig ! (?n - 1 - p)))"
      using that nth[of p] nth[of q] by simp
    then have "np_argsort eig ! (?n - 1 - q) < np_argsort eig ! (?n - 1 - p)"
      using that by (intro np_argsort_stable) simp_all
    then show ?thesis using that by (simp add: eig_argsort_nth)
  qed
  have cols: "column eigv' p = column eigv (?o ! p)" if "p < ?n" for p
    using that by (simp add: v' column_def lo)
  have vals: "eig' ! p = eig ! (?o ! p)" if "p < ?n" for p
    using that by (simp add: e' lo)
  show ?thesis
    unfolding len
  proof (intro conjI allI impI)
    show "length eig = length eig" ..
  next
    fix p q assume "p \<le> q \<and> q < length eig"
    then show "np_sort_key (eig' ! q) \<le> np_sort_key (eig' ! p)" using mono by blast
  next
    fix p q assume "list_all is_fin eig" "p \<le> q \<and> q < length eig"
    then show "np_ge (eig' ! p) (eig' ! q)" using fin by blast
  next
    fix p q assume "p < q \<and> q < length eig \<and> eig' ! p = eig' ! q"
    then show "eig_argsort eig ! q < eig_argsort eig ! p" using ties by blast
  next
    fix p assume "p < length eig"
    then show "eig' ! p = eig ! (eig_argsort eig ! p)" by (rule vals)
  next
    fix p assume "p < length eig"
    then show "column eigv' p = column eigv (eig_argsort eig ! p)" by (rule cols)
  qed
qed

theorem sort_eig_descending_witness:
  "sort_eig ([Fin 1, Fin 3, Fin 3], [[Fin 1, Fin 0, Fin 0], [Fin 0, Fin 1, Fin 0], [Fin 0, Fin 0, Fin 1]])
     = Inr ([Fin 3, Fin 3, Fin 1], [[Fin 0, Fin 0, Fin 1], [Fin 0, Fin 1, Fin 0], [Fin 1, Fin 0, Fin 0]])
   \<and> np_ge ([Fin 3, Fin 3, Fin 1] ! 0) ([Fin 3, Fin 3, Fin 1] ! 2)
   \<and> eig_argsort [Fin 1, Fin 3, Fin 3] ! 1 < eig_argsort [Fin 1, Fin 3, Fin 3] ! 0"
proof -
  have h: "sort_eig ([Fin 1, Fin 3, Fin 3], [[Fin 1, Fin 0, Fin 0], [Fin 0, Fin 1, Fin 0], [Fin 0, Fin 0, Fin 1]])
     = Inr ([Fin 3, Fin 3, Fin 1], [[Fin 0, Fin 0, Fin 1], [Fin 0, Fin 1, Fin 0], [Fin 1, Fin 0, Fin 0]])"
    by (simp add: sort_eig_def take_columns_def eig_argsort_def argsort_three)
  have f: "list_all is_fin [Fin 1, Fin 3, Fin 3]" by simp
  note c = sort_eig_descending[OF h]
  have "np_ge ([Fin 3, Fin 3, Fin 1] ! 0) ([Fin 3, Fin 3, Fin 1] ! 2)"
    using c f by simp
  moreover have "eig_argsort [Fin 1, Fin 3, Fin 3] ! 1 < eig_argsort [Fin 1, Fin 3, Fin 3] ! 0"
  proof -
    have "(0::nat) < 1 \<and> (1::nat) < length [Fin 3, Fin 3, Fin 1] \<and> [Fin 3, Fin 3, Fin 1] ! 0 = [Fin 3, Fin 3, Fin (1::real)] ! 1"
      by simp
    with c show ?thesis by blast
  qed
  ultimately show ?thesis using h by simp
qed


theorem eig_ties_not_ascending:
  "sort_eig ([Fin 1, Fin 1], [[Fin 1, Fin 0], [Fin 0, Fin 1]])
     = Inr ([Fin 1, Fin 1], [[Fin 0, Fin 1], [Fin 1, Fin 0]])
   \<and> eig_argsort [Fin 1, Fin 1] = [1, 0]
   \<and> stable_descending_order [Fin 1, Fin 1] = [0, 1]"
  by (simp add: sort_eig_def take_columns_def eig_argsort_def argsort_tie stable_descending_order_def)

subsection \<open>Centering, in exact arithmetic\<close>

lemma foldl_np_add_fin: "foldl np_add (Fin a) (map Fin xs) = Fin (a + sum_list xs)"
  by (induction xs arbitrary: a) (simp_all add: add.assoc)

lemma np_sum_fin: "np_sum (map Fin xs) = Fin (sum_list xs)"
  by (simp add: np_sum_def foldl_np_add_fin)

lemma np_sum_fin_map: "np_sum (map (\<lambda>x. Fin (f x)) xs) = Fin (sum_list (map f xs))"
  using np_sum_fin[of "map f xs"] by (simp add: comp_def)

lemma is_fin_list: "list_all is_fin r \<Longrightarrow> \<exists>rr. r = map Fin rr"
proof (induction r)
  case Nil
  then show ?case by simp
next
  case (Cons a r)
  then obtain rr where "r = map Fin rr" by auto
  moreover from Cons.prems obtain v where "a = Fin v" by (cases a) auto
  ultimately have "a # r = map Fin (v # rr)" by simp
  then show ?case by (rule exI[where x = "v # rr"])
qed

lemma finite_array_reals:
  "finite_array n m \<Longrightarrow> \<exists>mr. m = map (map Fin) mr \<and> list_all (\<lambda>r. length r = n) mr"
proof (induction m)
  case Nil
  then show ?case by (simp add: finite_array_def)
next
  case (Cons r m)
  then obtain mr where mr: "m = map (map Fin) mr" "list_all (\<lambda>r. length r = n) mr"
    by (auto simp: finite_array_def)
  from Cons.prems obtain rr where rr: "r = map Fin rr"
    using is_fin_list[of r] by (auto simp: finite_array_def)
  with Cons.prems have "length rr = n" by (simp add: finite_array_def)
  with mr rr have "r # m = map (map Fin) (rr # mr) \<and> list_all (\<lambda>r. length r = n) (rr # mr)"
    by simp
  then show ?case by (rule exI[where x = "rr # mr"])
qed

lemma ncols_reals:
  assumes "mr \<noteq> []" "list_all (\<lambda>r. length r = n) mr"
  shows "ncols (map (map Fin) mr) = n"
  using assms by (cases mr) (simp_all add: ncols_def)

lemma column_reals:
  assumes "list_all (\<lambda>r. length r = n) mr" "j < n"
  shows "column (map (map Fin) mr) j = map (\<lambda>r. Fin (r ! j)) mr"
  using assms by (simp add: column_def list_all_iff)

lemma mean_reals:
  assumes "mr \<noteq> []" "list_all (\<lambda>r. length r = n) mr"
  shows "np_mean_axis0 (map (map Fin) mr)
           = map (\<lambda>j. Fin (sum_list (map (\<lambda>r. r ! j) mr) / real (length mr))) [0..<n]"
proof -
  have T: "real (length mr) \<noteq> 0" using assms(1) by simp
  show ?thesis
    unfolding np_mean_axis0_def ncols_reals[OF assms]
    using T by (simp add: column_reals[OF assms(2)] np_sum_fin_map)
qed

lemma center_reals:
  assumes "mr \<noteq> []" "list_all (\<lambda>r. length r = n) mr"
  shows "center (map (map Fin) mr)
           = map (\<lambda>r. map (\<lambda>j. Fin (r ! j - sum_list (map (\<lambda>r. r ! j) mr) / real (length mr))) [0..<n]) mr"
proof -
  have row: "map2 np_sub (map Fin r) (map (\<lambda>j. Fin (f j)) [0..<n]) = map (\<lambda>j. Fin (r ! j - f j)) [0..<n]"
    if "length r = n" for r :: "real list" and f
    using that by (intro nth_equalityI) (simp_all add: np_sub_def)
  show ?thesis
    unfolding center_def mean_reals[OF assms]
    using assms(2) by (simp add: row list_all_iff)
qed

lemma add_offset_reals:
  "add_offset (map (map Fin) mr) (map Fin cr) = map (map Fin) (map (\<lambda>r. map2 (+) r cr) mr)"
proof -
  have "map2 np_add (map Fin r) (map Fin cr) = map Fin (map2 (+) r cr)" for r :: "real list"
    by (intro nth_equalityI) simp_all
  then show ?thesis by (simp add: add_offset_def)
qed

lemma sum_list_shift:
  "sum_list (map (\<lambda>r. f r + c) xs) = sum_list (map f xs) + real (length xs) * (c::real)"
  by (induction xs) (simp_all add: algebra_simps)

lemma col_sum_offset:
  "list_all (\<lambda>r. length r = n) mr \<Longrightarrow> length cr = n \<Longrightarrow> j < n \<Longrightarrow>
     sum_list (map (\<lambda>r. r ! j) (map (\<lambda>r. map2 (+) r cr) mr))
       = sum_list (map (\<lambda>r. r ! j) mr) + real (length mr) * (cr ! j :: real)"
  by (induction mr) (simp_all add: algebra_simps)

lemma center_add_offset:
  assumes x: "finite_array n x" and c: "list_all is_fin c" "length c = n"
  shows "center (add_offset x c) = center x"
proof (cases "x = []")
  case True
  then show ?thesis by (simp add: add_offset_def center_def)
next
  case False
  from finite_array_reals[OF x] obtain mr where mr: "x = map (map Fin) mr"
    and len: "list_all (\<lambda>r. length r = n) mr" by blast
  from is_fin_list[OF c(1)] obtain cr where cr: "c = map Fin cr" by blast
  have lc: "length cr = n" using c(2) cr by simp
  have ne: "mr \<noteq> []" using False mr by simp
  let ?mr' = "map (\<lambda>r. map2 (+) r cr) mr"
  have ne': "?mr' \<noteq> []" using ne by simp
  have len': "list_all (\<lambda>r. length r = n) ?mr'"
    using len lc by (simp add: list_all_iff)
  have T: "real (length mr) \<noteq> 0" using ne by simp
  define mu where "mu = (\<lambda>j. sum_list (map (\<lambda>r. r ! j) mr) / real (length mr))"
  define mu' where "mu' = (\<lambda>j. sum_list (map (\<lambda>r. r ! j) ?mr') / real (length ?mr'))"
  have c1: "center (map (map Fin) ?mr') = map (\<lambda>r. map (\<lambda>j. Fin (r ! j - mu' j)) [0..<n]) ?mr'"
    unfolding mu'_def by (rule center_reals[OF ne' len'])
  have c2: "center (map (map Fin) mr) = map (\<lambda>r. map (\<lambda>j. Fin (r ! j - mu j)) [0..<n]) mr"
    unfolding mu_def by (rule center_reals[OF ne len])
  have mu_eq: "mu' j = mu j + cr ! j" if "j < n" for j
    unfolding mu'_def mu_def col_sum_offset[OF len lc that]
    using T by (simp add: field_simps)
  have "map (\<lambda>r. map (\<lambda>j. Fin (r ! j - mu' j)) [0..<n]) ?mr'
          = map (\<lambda>r. map (\<lambda>j. Fin (r ! j - mu j)) [0..<n]) mr"
    using len lc mu_eq by (auto simp: list_all_iff)
  then have "center (map (map Fin) ?mr') = center (map (map Fin) mr)"
    by (simp only: c1 c2)
  then show ?thesis by (simp add: mr cr add_offset_reals)
qed

text \<open>
  In exact arithmetic \<open>lfca\<close> does not see a constant added to a column: for a finite
  \<open>T \<times> N\<close> data matrix \<open>x\<close> and a finite vector \<open>c\<close> of length \<open>N\<close>, the centered
  matrix of \<open>x\<close> plus \<open>c\<close> is the centered matrix of \<open>x\<close>, and \<open>lfca\<close> uses the data only
  through it. This is a statement about the exact values. The code computes \<open>x + c\<close>, the
  column means and the differences in float64, each operation rounded, and the rounding
  depends on \<open>c\<close>; the equality of the arrays the code returns is outside this model.
\<close>

lemma lfca_offset_invariant_exact:
  assumes "finite_array n x" and "list_all is_fin c" and "length c = n"
  shows "lfca lib (A2 (add_offset x c)) cutoff truncation weights kw
           = lfca lib (A2 x) cutoff truncation weights kw"
  by (simp add: lfca_def center_add_offset[OF assms])

subsection \<open>The sign convention\<close>

lemma map2_mul_fin: "map2 np_mul (map Fin ar) (map Fin br) = map Fin (map2 (*) ar br)"
  by (simp add: zip_map_map split_def)

lemma np_dot_fin:
  assumes "length ar = length br"
  shows "np_dot (map Fin ar) (map Fin br) = Inr (Fin (sum_list (map2 (*) ar br)))"
  unfolding np_dot_def map2_mul_fin np_sum_fin using assms by simp

lemma column_finite:
  assumes "finite_array k m" "j < k"
  shows "list_all is_fin (column m j)"
  using assms by (auto simp: finite_array_def column_def list_all_iff)

lemma neg_column_finite: "finite_array k m \<Longrightarrow> finite_array k (neg_column m j)"
proof -
  have "list_all is_fin (r[j := np_neg (r ! j)])" if "list_all is_fin r" for r
  proof (cases "j < length r")
    case True
    then have "is_fin (r ! j)" using that by (simp add: list_all_length)
    then have "is_fin (np_neg (r ! j))" by (cases "r ! j") simp_all
    then show ?thesis using that by (auto simp: list_all_iff dest: set_update_subset_insert[THEN subsetD])
  next
    case False
    then have "r[j := np_neg (r ! j)] = r" by (intro list_update_beyond) simp
    then show ?thesis using that by simp
  qed
  then show "finite_array k m \<Longrightarrow> finite_array k (neg_column m j)"
    by (auto simp: finite_array_def neg_column_def list_all_iff)
qed

lemma neg_column_length: "length (neg_column m j) = length m"
  by (simp add: neg_column_def)

lemma neg_column_same:
  assumes "finite_array k m" "j < k"
  shows "column (neg_column m j) j = map np_neg (column m j)"
  using assms by (auto simp: finite_array_def neg_column_def column_def list_all_iff)

lemma neg_column_other: "i \<noteq> j \<Longrightarrow> column (neg_column m j) i = column m i"
  by (simp add: neg_column_def column_def)

lemma map_neg_fin: "map np_neg (map Fin ar) = map Fin (map uminus ar)"
  by simp

lemma sum_list_neg_mul:
  "length ar = length br \<Longrightarrow> sum_list (map2 (*) (map uminus ar) br) = - sum_list (map2 (*) ar (br::real list))"
  by (induction ar br rule: list_induct2) simp_all

text \<open>After the sign loop every processed column has a non-negative product with scale.\<close>

lemma choose_sign_inv:
  assumes "choose_sign scale js (lfps, lfcs) = Inr (lfps1, lfcs1)"
    and "finite_array k lfps" and "list_all is_fin scale"
    and "distinct js" and "\<forall>j\<in>set js. j < k"
  shows "finite_array k lfps1 \<and> length lfps1 = length lfps
     \<and> (\<forall>j. j \<notin> set js \<longrightarrow> column lfps1 j = column lfps j)
     \<and> (\<forall>j\<in>set js. \<exists>d. np_dot (column lfps1 j) scale = Inr (Fin d) \<and> 0 \<le> d)"
  using assms
proof (induction js arbitrary: lfps lfcs)
  case Nil
  then show ?case by simp
next
  case (Cons j js)
  from Cons.prems(5) have jk: "j < k" by simp
  from Cons.prems(4) have jn: "j \<notin> set js" and dj: "distinct js" by simp_all
  from Cons.prems(5) have bj: "\<forall>j\<in>set js. j < k" by simp
  from Cons.prems(1) obtain d where d: "np_dot (column lfps j) scale = Inr d"
    by (auto split: sum.splits)
  then have leq: "length (column lfps j) = length scale"
    by (auto simp: np_dot_def split: if_splits)
  obtain cr where cr: "column lfps j = map Fin cr"
    using is_fin_list[OF column_finite[OF Cons.prems(2) jk]] by blast
  obtain sr where sr: "scale = map Fin sr"
    using is_fin_list[OF Cons.prems(3)] by blast
  have lcs: "length cr = length sr" using leq cr sr by simp
  have dv: "d = Fin (sum_list (map2 (*) cr sr))"
    using d np_dot_fin[OF lcs] by (simp add: cr sr)
  show ?case
  proof (cases "sum_list (map2 (*) cr sr) < 0")
    case True
    then have rec: "choose_sign scale js (neg_column lfps j, neg_column lfcs j) = Inr (lfps1, lfcs1)"
      using Cons.prems(1) d dv by simp
    note ih = Cons.IH[OF rec neg_column_finite[OF Cons.prems(2)] Cons.prems(3) dj bj]
    have cj: "column lfps1 j = map Fin (map uminus cr)"
      using ih jn neg_column_same[OF Cons.prems(2) jk] by (simp add: cr)
    have "np_dot (column lfps1 j) scale = Inr (Fin (- sum_list (map2 (*) cr sr)))"
      unfolding cj sr using np_dot_fin[of "map uminus cr" sr] lcs
      by (simp add: sum_list_neg_mul)
    moreover have "\<forall>i. i \<notin> set (j # js) \<longrightarrow> column lfps1 i = column lfps i"
      using ih by (simp add: neg_column_other)
    ultimately show ?thesis
      using ih True by (auto simp: neg_column_length)
  next
    case False
    then have rec: "choose_sign scale js (lfps, lfcs) = Inr (lfps1, lfcs1)"
      using Cons.prems(1) d dv by simp
    note ih = Cons.IH[OF rec Cons.prems(2) Cons.prems(3) dj bj]
    have "np_dot (column lfps1 j) scale = Inr (Fin (sum_list (map2 (*) cr sr)))"
      using ih jn d dv by simp
    then show ?thesis
      using ih False by auto
  qed
qed


lemma pos_weights_reals:
  assumes "list_all (\<lambda>w. is_fin w \<and> np_less (Fin 0) w) weights"
  shows "\<exists>ar. weights = map Fin ar \<and> (\<forall>a\<in>set ar. 0 < a)"
proof -
  from assms have "list_all is_fin weights" by (simp add: list_all_iff)
  from is_fin_list[OF this] obtain ar where ar: "weights = map Fin ar" by blast
  with assms have "\<forall>a\<in>set ar. 0 < a" by (auto simp: list_all_iff)
  with ar show ?thesis by blast
qed

lemma sum_list_pos_ge:
  assumes "\<forall>a\<in>set ar. 0 < (a::real)" "a \<in> set ar"
  shows "0 < sum_list ar"
proof -
  have "0 \<le> sum_list ar" using assms(1) by (intro sum_list_nonneg) (simp add: less_imp_le)
  moreover have "a \<le> sum_list ar" using assms by (intro member_le_sum_list) (auto simp: less_imp_le)
  ultimately show ?thesis using assms by force
qed

lemma lfca_scale_pos:
  assumes "\<forall>a\<in>set ar. 0 < a"
  shows "lfca_scale (map Fin ar) = map (\<lambda>a. Fin (sqrt (a / sum_list ar))) ar"
proof -
  have "np_sqrt (np_div (Fin a) (Fin (sum_list ar))) = Fin (sqrt (a / sum_list ar))" if "a \<in> set ar" for a
  proof -
    have S: "0 < sum_list ar" using sum_list_pos_ge[OF assms that] .
    moreover have "0 < a" using assms that by simp
    ultimately have "0 \<le> a / sum_list ar" by simp
    then show ?thesis using S by (simp add: not_less)
  qed
  then show ?thesis by (simp add: lfca_scale_def np_sum_fin)
qed

lemma rescale_dot_real:
  assumes "0 < S" "\<forall>a\<in>set ar. 0 < a" "length lr = length ar"
  shows "sum_list (map2 (*) (map2 (\<lambda>l a. l / sqrt (a / S)) lr ar) ar)
           = S * sum_list (map2 (*) lr (map (\<lambda>a. sqrt (a / S)) ar))"
  using assms(3,2)
proof (induction lr ar rule: list_induct2)
  case Nil
  then show ?case by simp
next
  case (Cons l lr a ar)
  have a: "0 < a" using Cons.prems by simp
  define s where "s = sqrt (a / S)"
  have s0: "s \<noteq> 0" using a assms(1) by (simp add: s_def)
  have ss: "s * s = a / S" unfolding s_def using a assms(1) by (simp add: abs_of_pos)
  have "a = s * s * S" using assms(1) by (simp add: ss)
  then have "l / s * a = l / s * (s * s * S)" by simp
  also have "\<dots> = S * (l * s)" using s0 by simp
  finally have step: "l / sqrt (a / S) * a = S * (l * sqrt (a / S))" unfolding s_def .
  have ih: "sum_list (map2 (*) (map2 (\<lambda>l a. l / sqrt (a / S)) lr ar) ar)
          = S * sum_list (map2 (*) lr (map (\<lambda>a. sqrt (a / S)) ar))"
    using Cons by simp
  have "sum_list (map2 (*) (map2 (\<lambda>l a. l / sqrt (a / S)) (l # lr) (a # ar)) (a # ar))
          = l / sqrt (a / S) * a + sum_list (map2 (*) (map2 (\<lambda>l a. l / sqrt (a / S)) lr ar) ar)"
    by simp
  also have "\<dots> = S * (l * sqrt (a / S)) + S * sum_list (map2 (*) lr (map (\<lambda>a. sqrt (a / S)) ar))"
    by (simp only: step ih)
  also have "\<dots> = S * sum_list (map2 (*) (l # lr) (map (\<lambda>a. sqrt (a / S)) (a # ar)))"
    by (simp add: distrib_left)
  finally show ?case .
qed

lemma transpose_rows: "row \<in> set (np_transpose m) \<Longrightarrow> \<exists>j<ncols m. row = column m j"
  by (auto simp: np_transpose_def)

lemma column_map2_div:
  assumes "list_all (\<lambda>r. length r = k) m" "j < k"
  shows "column (map2 (\<lambda>r s. map (\<lambda>v. np_div v s) r) m sc) j = map2 np_div (column m j) sc"
  using assms(1)
proof (induction m arbitrary: sc)
  case Nil
  then show ?case by (simp add: column_def)
next
  case (Cons r m)
  show ?case
  proof (cases sc)
    case Nil
    then show ?thesis by (simp add: column_def)
  next
    case (Cons s sc')
    have "column (map2 (\<lambda>r s. map (\<lambda>v. np_div v s) r) m sc') j = map2 np_div (column m j) sc'"
      using Cons.IH Cons.prems by simp
    then show ?thesis
      using Cons.prems assms(2) Cons by (simp add: column_def)
  qed
qed

lemma map2_div_fin:
  assumes "\<forall>s\<in>set sr. s \<noteq> 0"
  shows "map2 np_div (map Fin lr) (map Fin sr) = map Fin (map2 (/) lr sr)"
  using assms
proof (induction lr arbitrary: sr)
  case Nil
  then show ?case by simp
next
  case (Cons l lr)
  then show ?case by (cases sr) simp_all
qed

lemma map2_div_sqrt:
  "map2 (/) lr (map (\<lambda>a. sqrt (a / S)) ar) = map2 (\<lambda>l a. l / sqrt (a / S)) lr (ar::real list)"
proof (induction lr arbitrary: ar)
  case Nil
  then show ?case by simp
next
  case (Cons l lr)
  then show ?case by (cases ar) simp_all
qed

lemma ncols_rows_empty: "list_all (\<lambda>r. r = []) m \<Longrightarrow> np_transpose m = []"
  by (cases m) (simp_all add: np_transpose_def ncols_def)

lemma sign_and_rescale_nonneg:
  assumes r: "sign_and_rescale (lfca_scale weights) lfps0 lfcs0 = Inr (lfcs, lfps)"
    and w: "list_all (\<lambda>w. is_fin w \<and> np_less (Fin 0) w) weights"
    and f: "finite_array k lfps0"
  shows "\<forall>row\<in>set lfps. \<exists>d. np_dot row weights = Inr (Fin d) \<and> 0 \<le> d"
proof -
  from pos_weights_reals[OF w] obtain ar where ar: "weights = map Fin ar" and pos: "\<forall>a\<in>set ar. 0 < a"
    by blast
  define S where "S = sum_list ar"
  define sr where "sr = map (\<lambda>a. sqrt (a / S)) ar"
  define scale where "scale = lfca_scale weights"
  have sc: "scale = map Fin sr"
    unfolding scale_def ar lfca_scale_pos[OF pos] sr_def S_def by simp
  have scf: "list_all is_fin scale" by (simp add: sc list_all_iff)
  from r obtain lfps1 lfps2 where
    cs: "choose_sign scale [0..<ncols lfps0] (lfps0, lfcs0) = Inr (lfps1, lfcs)"
    and bc: "broadcast2 (\<lambda>r s. map (\<lambda>v. np_div v s) r) lfps1 scale = Inr lfps2"
    and tr: "lfps = np_transpose lfps2"
    by (auto simp: sign_and_rescale_def scale_def split: sum.splits prod.splits)
  have rows0: "list_all (\<lambda>r. length r = k) lfps0"
    using f by (simp add: finite_array_def list_all_iff)
  show ?thesis
  proof (cases "lfps0 = [] \<or> k = 0")
    case True
    have nc: "ncols lfps0 = 0"
      using True rows0 by (cases lfps0) (auto simp: ncols_def)
    then have l1: "lfps1 = lfps0" using cs by simp
    have e0: "list_all (\<lambda>r. r = []) lfps0"
      using True rows0 by (auto simp: list_all_iff)
    have "list_all (\<lambda>r. r = []) lfps2"
    proof -
      have h: "hd lfps0 = []" if "length lfps0 = 1"
        using that e0 by (cases lfps0) simp_all
      from bc show ?thesis
        using e0 h unfolding l1 broadcast2_def
        by (auto simp: list_all_iff split: if_splits dest!: set_zip_leftD)
    qed
    then have "lfps = []" unfolding tr by (rule ncols_rows_empty)
    then show ?thesis by simp
  next
    case False
    then have ne: "lfps0 \<noteq> []" and k0: "0 < k" by simp_all
    have nc: "ncols lfps0 = k" using ne rows0 by (cases lfps0) (simp_all add: ncols_def)
    have inv: "finite_array k lfps1" "length lfps1 = length lfps0"
      "\<forall>j<k. \<exists>d. np_dot (column lfps1 j) scale = Inr (Fin d) \<and> 0 \<le> d"
      using choose_sign_inv[OF cs[unfolded nc] f scf] by simp_all
    have rows1: "list_all (\<lambda>r. length r = k) lfps1"
      using inv(1) by (simp add: finite_array_def list_all_iff)
    from inv(3) k0 obtain d0 where "np_dot (column lfps1 0) scale = Inr (Fin d0)" by blast
    then have len: "length lfps1 = length scale"
      by (auto simp: np_dot_def column_def split: if_splits)
    then have lar: "length lfps1 = length ar" by (simp add: sc sr_def)
    have l2: "lfps2 = map2 (\<lambda>r s. map (\<lambda>v. np_div v s) r) lfps1 scale"
      using bc len by (simp add: broadcast2_def)
    have ne1: "lfps1 \<noteq> []" using inv(2) ne by auto
    then have arne: "ar \<noteq> []" using lar by auto
    then obtain a0 where "a0 \<in> set ar" by (cases ar) auto
    then have Spos: "0 < S" unfolding S_def using sum_list_pos_ge[OF pos] by blast
    have srne: "\<forall>s\<in>set sr. s \<noteq> 0"
      using pos Spos by (auto simp: sr_def)
    have nc2: "ncols lfps2 = k"
    proof -
      obtain r1 m1 where m1: "lfps1 = r1 # m1" using ne1 by (cases lfps1) auto
      obtain s1 sc1 where s1: "scale = s1 # sc1" using len m1 by (cases scale) auto
      have "length r1 = k" using rows1 m1 by simp
      then show ?thesis by (simp add: l2 m1 s1 ncols_def)
    qed
    show ?thesis
    proof
      fix row assume "row \<in> set lfps"
      then obtain j where j: "j < k" and row: "row = column lfps2 j"
        using transpose_rows[of row lfps2] by (auto simp: tr nc2)
      from inv(3) j obtain d where d: "np_dot (column lfps1 j) scale = Inr (Fin d)" and d0: "0 \<le> d"
        by blast
      obtain lr where lr: "column lfps1 j = map Fin lr"
        using is_fin_list[OF column_finite[OF inv(1) j]] by blast
      have llr: "length lr = length ar"
        using lr lar by (metis length_map column_def)
      have lsr: "length lr = length sr" using llr by (simp add: sr_def)
      have dval: "d = sum_list (map2 (*) lr sr)"
        using d np_dot_fin[OF lsr] by (simp add: lr sc)
      have "row = map2 np_div (column lfps1 j) scale"
        unfolding row l2 by (rule column_map2_div[OF rows1 j])
      also have "\<dots> = map Fin (map2 (/) lr sr)"
        unfolding lr sc by (rule map2_div_fin[OF srne])
      also have "\<dots> = map Fin (map2 (\<lambda>l a. l / sqrt (a / S)) lr ar)"
        unfolding sr_def map2_div_sqrt ..
      finally have rowv: "row = map Fin (map2 (\<lambda>l a. l / sqrt (a / S)) lr ar)" .
      have "np_dot row weights
              = Inr (Fin (sum_list (map2 (*) (map2 (\<lambda>l a. l / sqrt (a / S)) lr ar) ar)))"
        unfolding rowv ar using llr by (intro np_dot_fin) simp
      also have "sum_list (map2 (*) (map2 (\<lambda>l a. l / sqrt (a / S)) lr ar) ar) = S * d"
        unfolding dval sr_def by (rule rescale_dot_real[OF Spos pos llr])
      finally have "np_dot row weights = Inr (Fin (S * d))" .
      moreover have "0 \<le> S * d" using Spos d0 by simp
      ultimately show "\<exists>d. np_dot row weights = Inr (Fin d) \<and> 0 \<le> d" by blast
    qed
  qed
qed

lemma np_sum_mul_finite:
  assumes "list_all is_fin r" "list_all is_fin c"
  shows "is_fin (np_sum (map2 np_mul r c))"
proof -
  obtain rr cc where rc: "r = map Fin rr" "c = map Fin cc"
    using is_fin_list[OF assms(1)] is_fin_list[OF assms(2)] by blast
  show ?thesis unfolding rc map2_mul_fin np_sum_fin by simp
qed

lemma ncols_finite_array:
  assumes "finite_array n m" "m \<noteq> []"
  shows "ncols m = n"
  using assms by (cases m) (simp_all add: finite_array_def ncols_def)

lemma transpose_finite:
  assumes "finite_array n m"
  shows "list_all (list_all is_fin) (np_transpose m)"
proof (cases "m = []")
  case True
  then show ?thesis by (simp add: np_transpose_def ncols_def)
next
  case False
  have "list_all is_fin (column m j)" if "j < ncols m" for j
    using that column_finite[OF assms] ncols_finite_array[OF assms False] by simp
  then show ?thesis by (simp add: np_transpose_def list_all_iff)
qed

lemma matmul_finite:
  assumes "matmul a b = Inr c" "list_all (list_all is_fin) a" "finite_array n b"
  shows "finite_array (ncols b) c"
proof -
  from assms(1) have c: "c = map (\<lambda>r. map (\<lambda>col. np_sum (map2 np_mul r col)) (np_transpose b)) a"
    by (auto simp: matmul_def split: if_splits)
  have tb: "list_all (list_all is_fin) (np_transpose b)" by (rule transpose_finite[OF assms(3)])
  have "length (np_transpose b) = ncols b" by (simp add: np_transpose_def)
  then show ?thesis
    using assms(2) tb unfolding c finite_array_def
    by (auto simp: list_all_iff intro!: np_sum_mul_finite)
qed

lemma take_columns_finite:
  assumes "take_columns m idx = Inr m'" "list_all (list_all is_fin) m"
  shows "finite_array (length idx) m'"
  using assms
  by (auto simp: take_columns_def finite_array_def list_all_iff split: if_splits)

lemma lfca_stages:
  assumes "lfca lib x cutoff truncation weights kw = Inr (lfcs, lfps)"
  shows "\<exists>xs s m e v eigv' lfps0 lfcs0.
           Eof lib xs = Inr s \<and> eigh lib m = Inr (e, v)
         \<and> take_columns v (eig_argsort e) = Inr eigv'
         \<and> matmul (np_transpose (eof_eofs s truncation 2)) eigv' = Inr lfps0
         \<and> sign_and_rescale (lfca_scale weights) lfps0 lfcs0 = Inr (lfcs, lfps)"
proof -
  from assms obtain x0 where x: "x = A2 x0" by (cases x) (simp_all add: lfca_def)
  from assms[unfolded x lfca_def Let_def] show ?thesis
    by (auto simp: np_linalg_eigh_def sort_eig_def split: sum.splits prod.splits ndarray.splits) blast
qed


subsection \<open>A run of \<open>lfca\<close> on the stand-in library\<close>

lemma taps_cutoff1: "low_pass_weights 3 1 = Inr [0, 2, 0]"
  by (simp add: lpw_closed Let_def lanczos_tap_def)

lemma filter_two:
  "filter_ts stub_lib [Fin a, Fin b] 1 ''lanczos'' ''mirror'' False 1 = Inr [Fin (2 * a), Fin (2 * b)]"
proof -
  have t: "low_pass_weights (1 * 2 + 1) (1 / real_of_int 1) = Inr [0, 2, 0]"
    using taps_cutoff1 by simp
  have p: "filter_padding stub_lib [Fin a, Fin b] 2 ''mirror'' False 1
            = Inr [Fin b, Fin a, Fin a, Fin b, Fin b, Fin a]"
    using filter_padding_closed[of 2 "[Fin a, Fin b]" "''mirror''" False stub_lib 1]
    by (simp add: padded_def)
  have c: "convolve_same [Fin b, Fin a, Fin a, Fin b, Fin b, Fin a] [Fin 0, Fin 2, Fin 0]
            = Inr [Fin (2 * b), Fin (2 * a), Fin (2 * a), Fin (2 * b), Fin (2 * b), Fin (2 * a)]"
    by (simp add: convolve_same_def convolve_full_def upt_rec np_sum_def)
  show ?thesis
    unfolding filter_ts_def t
    by (simp add: p c getslice_def slice_start_def slice_stop_def py_index_def)
qed


lemma stub_pcs_filt:
  "filter_pcs stub_lib 1 (default_kwargs\<lparr>kw_detrend := False\<rparr>)
      [[Fin 1, Fin 0], [Fin 0, Fin 1]] [0..<2] [[Fin 0, Fin 0], [Fin 0, Fin 0]]
     = Inr [[Fin 2, Fin 0], [Fin 0, Fin 2]]"
  by (simp add: upt_rec default_kwargs_def ncols_def column_def filter_two broadcast_to_def
        getslice_all set_column_def)

lemma stub_cov: "np_cov [[Fin 2, Fin 0], [Fin 0, Fin 2]] = A2 [[Fin 2, Fin (- 2)], [Fin (- 2), Fin 2]]"
  by (simp add: np_cov_def np_transpose_def ncols_def column_def upt_rec np_sum_def np_sub_def)

lemma stub_sort:
  "sort_eig ([Fin 0, Fin 1], [[Fin 1, Fin 0], [Fin 0, Fin 1]])
     = Inr ([Fin 1, Fin 0], [[Fin 0, Fin 1], [Fin 1, Fin 0]])"
  by (simp add: sort_eig_def take_columns_def eig_argsort_def np_argsort_def upt_rec)

lemma stub_center:
  "center [[Fin 1, Fin 2], [Fin 3, Fin 5]] = [[Fin (- 1), Fin (- 3 / 2)], [Fin 1, Fin (3 / 2)]]"
  by (simp add: center_def np_mean_axis0_def ncols_def column_def upt_rec np_sum_def np_sub_def)

lemma stub_lfca:
  assumes "lfca_scale weights = [Fin s1, Fin s2]"
  shows "lfca stub_lib (A2 [[Fin 1, Fin 2], [Fin 3, Fin 5]]) 1 2 weights (default_kwargs\<lparr>kw_detrend := False\<rparr>)
     = sign_and_rescale [Fin s1, Fin s2] [[Fin 0, Fin (- 2)], [Fin (- 2), Fin 0]]
         [[Fin (3 * s2 / 2), Fin s1], [Fin (- (3 * s2 / 2)), Fin (- s1)]]"
proof -
  have xs: "map_err (\<lambda>r. broadcast2 np_mul r [Fin s1, Fin s2]) [[Fin (- 1), Fin (- 3 / 2)], [Fin 1, Fin (3 / 2)]]
              = Inr [[Fin (- s1), Fin (- (3 * s2 / 2))], [Fin s1, Fin (3 * s2 / 2)]]"
    by (simp add: broadcast2_def)
  have eo: "Eof stub_lib xs = Inr (stub_solver xs)" for xs by (simp add: stub_lib_def)
  have pc: "eof_pcs (stub_solver [[a, b], [c, d]]) 2 = [[Fin 1, Fin 0], [Fin 0, Fin 1]]" for a b c d
    by (simp add: stub_solver_def unit_rows_def ncols_def upt_rec)
  have e1: "eof_eofs (stub_solver [[a, b], [c, d]]) 2 1 = [[Fin (- 1), Fin 0], [Fin 0, Fin (- 1)]]" for a b c d
    by (simp add: stub_solver_def unit_rows_def ncols_def upt_rec)
  have e2: "eof_eofs (stub_solver [[a, b], [c, d]]) 2 2 = [[Fin (- 2), Fin 0], [Fin 0, Fin (- 2)]]" for a b c d
    by (simp add: stub_solver_def unit_rows_def ncols_def upt_rec)
  have eg: "np_linalg_eigh stub_lib (A2 [[a, b], [c, d]]) = Inr ([Fin 0, Fin 1], [[Fin 1, Fin 0], [Fin 0, Fin 1]])"
    for a b c d
    by (simp add: np_linalg_eigh_def stub_lib_def unit_rows_def upt_rec)
  have m1: "matmul (np_transpose [[Fin (- 1), Fin 0], [Fin 0, Fin (- 1)]]) [[Fin 0, Fin 1], [Fin 1, Fin 0]]
              = Inr [[Fin 0, Fin (- 1)], [Fin (- 1), Fin 0]]"
    by (simp add: matmul_def np_transpose_def ncols_def column_def upt_rec np_sum_def)
  have m2: "matmul [[Fin (- s1), Fin (- (3 * s2 / 2))], [Fin s1, Fin (3 * s2 / 2)]] [[Fin 0, Fin (- 1)], [Fin (- 1), Fin 0]]
              = Inr [[Fin (3 * s2 / 2), Fin s1], [Fin (- (3 * s2 / 2)), Fin (- s1)]]"
    by (simp add: matmul_def np_transpose_def ncols_def column_def upt_rec np_sum_def)
  have m3: "matmul (np_transpose [[Fin (- 2), Fin 0], [Fin 0, Fin (- 2)]]) [[Fin 0, Fin 1], [Fin 1, Fin 0]]
              = Inr [[Fin 0, Fin (- 2)], [Fin (- 2), Fin 0]]"
    by (simp add: matmul_def np_transpose_def ncols_def column_def upt_rec np_sum_def)
  show ?thesis
    unfolding lfca_def ndarray.case Let_def assms stub_center xs sum.case eo pc e1 e2
    by (simp add: stub_pcs_filt stub_cov eg stub_sort m1 m2 m3)
qed

lemma finite_unit_rows: "finite_array c (unit_rows r c d)"
  by (simp add: finite_array_def unit_rows_def list_all_iff)

lemma stub_finite:
  "\<forall>m s. Eof stub_lib m = Inr s \<longrightarrow> (\<exists>n. finite_array n (eof_eofs s k 2))"
  "\<forall>m e v. eigh stub_lib m = Inr (e, v) \<longrightarrow> list_all (list_all is_fin) v"
proof -
  show "\<forall>m s. Eof stub_lib m = Inr s \<longrightarrow> (\<exists>n. finite_array n (eof_eofs s k 2))"
    using finite_unit_rows by (auto simp: stub_lib_def stub_solver_def)
  have "list_all (list_all is_fin) (unit_rows r c d)" for r c d
    by (simp add: unit_rows_def list_all_iff)
  then show "\<forall>m e v. eigh stub_lib m = Inr (e, v) \<longrightarrow> list_all (list_all is_fin) v"
    by (auto simp: stub_lib_def)
qed

lemma scale_9_16: "lfca_scale [Fin 9, Fin 16] = [Fin (3 / 5), Fin (4 / 5)]"
proof -
  have a: "sqrt (9 / 25) = 3 / 5" by (rule real_sqrt_unique) (simp_all add: power2_eq_square)
  have b: "sqrt (16 / 25) = 4 / 5" by (rule real_sqrt_unique) (simp_all add: power2_eq_square)
  show ?thesis by (simp add: lfca_scale_def np_sum_def a b)
qed

lemma scale_1_0: "lfca_scale [Fin 1, Fin 0] = [Fin 1, Fin 0]"
  by (simp add: lfca_scale_def np_sum_def)

lemma stub_run_9_16:
  "lfca stub_lib (A2 [[Fin 1, Fin 2], [Fin 3, Fin 5]]) 1 2 [Fin 9, Fin 16] (default_kwargs\<lparr>kw_detrend := False\<rparr>)
     = Inr ([[Fin (- (6 / 5)), Fin (- (3 / 5))], [Fin (6 / 5), Fin (3 / 5)]],
            [[Fin 0, Fin (5 / 2)], [Fin (10 / 3), Fin 0]])"
  unfolding stub_lfca[OF scale_9_16]
  by (simp add: sign_and_rescale_def ncols_def upt_rec column_def np_dot_def np_sum_def
        neg_column_def broadcast2_def np_transpose_def)

lemma stub_run_1_0:
  "lfca stub_lib (A2 [[Fin 1, Fin 2], [Fin 3, Fin 5]]) 1 2 [Fin 1, Fin 0] (default_kwargs\<lparr>kw_detrend := False\<rparr>)
     = Inr ([[Fin 0, Fin (- 1)], [Fin 0, Fin 1]],
            [[Fin 0, NInf], [Fin 2, NaN]])"
  unfolding stub_lfca[OF scale_1_0]
  by (simp add: sign_and_rescale_def ncols_def upt_rec column_def np_dot_def np_sum_def
        neg_column_def broadcast2_def np_transpose_def inf_of_sign_def)


text \<open>
  C1. Whenever \<open>lfca\<close> returns, with every weight finite and strictly positive (and
  the \<open>Eof\<close> solver and \<open>eigh\<close> returning finite arrays), every returned LFP row has a
  non-negative dot product with the weights. The sign is chosen on the pattern before the
  rescaling, against \<open>scale = sqrt(w / sum(w))\<close>; dividing row \<open>i\<close> by \<open>scale[i]\<close>
  multiplies the product by \<open>sum(w)\<close>. A zero weight makes \<open>scale[i]\<close> zero, the division
  gives nan or an infinity, and the dot product is nan.
\<close>

theorem lfca_sign_convention:
  assumes r: "lfca lib x cutoff truncation weights kw = Inr (lfcs, lfps)"
    and w: "list_all (\<lambda>w. is_fin w \<and> np_less (Fin 0) w) weights"
    and he: "\<forall>m s. Eof lib m = Inr s \<longrightarrow> (\<exists>n. finite_array n (eof_eofs s truncation 2))"
    and hv: "\<forall>m e v. eigh lib m = Inr (e, v) \<longrightarrow> list_all (list_all is_fin) v"
  shows "\<forall>row\<in>set lfps. \<exists>d. np_dot row weights = Inr d \<and> np_ge d (Fin 0)"
proof -
  from lfca_stages[OF r] obtain xs s m e v eigv' lfps0 lfcs0 where
    eo: "Eof lib xs = Inr s" and ei: "eigh lib m = Inr (e, v)"
    and tc: "take_columns v (eig_argsort e) = Inr eigv'"
    and mm: "matmul (np_transpose (eof_eofs s truncation 2)) eigv' = Inr lfps0"
    and sr: "sign_and_rescale (lfca_scale weights) lfps0 lfcs0 = Inr (lfcs, lfps)"
    by blast
  from he eo obtain n where fe: "finite_array n (eof_eofs s truncation 2)" by blast
  from hv ei have fv: "list_all (list_all is_fin) v" by blast
  have f0: "finite_array (ncols eigv') lfps0"
    using matmul_finite[OF mm transpose_finite[OF fe] take_columns_finite[OF tc fv]] .
  have "\<forall>row\<in>set lfps. \<exists>d. np_dot row weights = Inr (Fin d) \<and> 0 \<le> d"
    using sign_and_rescale_nonneg[OF sr w f0] .
  then show ?thesis by fastforce
qed

theorem lfca_sign_convention_witness:
  "lfca stub_lib (A2 [[Fin 1, Fin 2], [Fin 3, Fin 5]]) 1 2 [Fin 9, Fin 16] (default_kwargs\<lparr>kw_detrend := False\<rparr>)
     = Inr ([[Fin (- (6 / 5)), Fin (- (3 / 5))], [Fin (6 / 5), Fin (3 / 5)]],
            [[Fin 0, Fin (5 / 2)], [Fin (10 / 3), Fin 0]])
   \<and> (\<exists>d. np_dot [Fin 0, Fin (5 / 2)] [Fin 9, Fin 16] = Inr d \<and> np_ge d (Fin 0))
   \<and> (\<exists>d. np_dot [Fin (10 / 3), Fin 0] [Fin 9, Fin 16] = Inr d \<and> np_ge d (Fin 0))"
proof -
  have w: "list_all (\<lambda>w. is_fin w \<and> np_less (Fin 0) w) [Fin 9, Fin 16]" by simp
  show ?thesis
    using stub_run_9_16 lfca_sign_convention [OF stub_run_9_16 w stub_finite]
    by simp
qed

theorem lfca_zero_weight_gives_nan:
  "lfca stub_lib (A2 [[Fin 1, Fin 2], [Fin 3, Fin 5]]) 1 2 [Fin 1, Fin 0] (default_kwargs\<lparr>kw_detrend := False\<rparr>)
     = Inr ([[Fin 0, Fin (- 1)], [Fin 0, Fin 1]], [[Fin 0, NInf], [Fin 2, NaN]])
   \<and> np_dot [Fin 0, NInf] [Fin 1, Fin 0] = Inr NaN
   \<and> \<not> np_ge NaN (Fin 0)"
  using stub_run_1_0 by (simp add: np_dot_def np_sum_def inf_of_sign_def)

subsection \<open>The shapes of the results\<close>

lemma filter_pcs_single:
  assumes "filter_pcs lib cutoff kw pcs0 [0] zs = Inr pf"
  shows "1 \<le> ncols pcs0 \<and> (\<exists>col. length col = length zs \<and> pf = set_column zs 0 col)"
proof -
  from assms have n: "\<not> ncols pcs0 \<le> 0" by (auto split: if_splits)
  from assms n obtain f col where "broadcast_to (length zs) f = Inr col" and pf: "pf = set_column zs 0 col"
    by (auto split: sum.splits if_splits)
  then have "length col = length zs" by (auto simp: broadcast_to_def split: if_splits)
  with n pf show ?thesis by auto
qed

lemma ncols_set_column:
  assumes "length col = length m"
  shows "ncols (set_column m i col) = ncols m"
proof (cases m)
  case Nil
  then show ?thesis by (simp add: set_column_def ncols_def)
next
  case (Cons r rs)
  with assms obtain v vs where "col = v # vs" by (cases col) auto
  with Cons show ?thesis by (simp add: set_column_def ncols_def)
qed

lemma ncols_zeros: "ncols (map (map (\<lambda>_. Fin 0)) m) = ncols m"
  by (cases m) (simp_all add: ncols_def)

lemma np_cov_one_column:
  assumes "ncols m = 1"
  shows "\<exists>v. np_cov m = A0 v"
proof -
  define X where "X = (if length m \<noteq> 1 then np_transpose m else m)"
  have lx: "length X = 1"
    using assms by (simp add: X_def np_transpose_def)
  then have ne: "X \<noteq> []" by auto
  show ?thesis
    unfolding np_cov_def X_def[symmetric] Let_def
    using lx ne by simp
qed

lemma lfca_stages_front:
  assumes "lfca lib x cutoff truncation weights kw = Inr res"
  shows "\<exists>xs s pf ev. Eof lib xs = Inr s
          \<and> filter_pcs lib cutoff kw (eof_pcs s truncation) [0..<truncation]
                (map (map (\<lambda>_. Fin 0)) (eof_pcs s truncation)) = Inr pf
          \<and> np_linalg_eigh lib (np_cov pf) = Inr ev"
proof -
  from assms obtain x0 where x: "x = A2 x0" by (cases x) (simp_all add: lfca_def)
  from assms[unfolded x lfca_def Let_def] show ?thesis
    by (auto split: sum.splits) blast
qed

lemma map_err_all2:
  "map_err f ys = Inr zs \<Longrightarrow> list_all2 (\<lambda>y z. f y = Inr z) ys zs"
proof (induction ys arbitrary: zs)
  case Nil
  then show ?case by simp
next
  case (Cons y ys)
  then show ?case by (auto split: sum.splits)
qed

lemma length_np_transpose: "length (np_transpose m) = ncols m"
  by (simp add: np_transpose_def)

lemma has_shape_ncols: "has_shape n k m \<Longrightarrow> 0 < n \<Longrightarrow> ncols m = k"
  by (cases m) (simp_all add: has_shape_def ncols_def)

lemma center_shape:
  assumes "has_shape n k x"
  shows "has_shape n k (center x)"
proof (cases "n = 0")
  case True
  then show ?thesis using assms by (simp add: has_shape_def center_def)
next
  case False
  then have "ncols x = k" using has_shape_ncols[OF assms] by simp
  then have "length (np_mean_axis0 x) = k" by (simp add: np_mean_axis0_def)
  then show ?thesis using assms by (simp add: has_shape_def center_def list_all_iff)
qed

lemma scaled_shape:
  assumes "map_err (\<lambda>r. broadcast2 np_mul r scale) x1 = Inr xs" "has_shape n k x1" "length scale = k"
  shows "has_shape n k xs"
proof -
  have a: "list_all2 (\<lambda>y z. broadcast2 np_mul y scale = Inr z) x1 xs"
    by (rule map_err_all2[OF assms(1)])
  then have len: "length xs = length x1" by (simp add: list_all2_lengthD)
  have "length z = k" if "z \<in> set xs" for z
  proof -
    from that obtain i where i: "i < length xs" "z = xs ! i" by (auto simp: in_set_conv_nth)
    then have "broadcast2 np_mul (x1 ! i) scale = Inr z"
      using a by (simp add: list_all2_conv_all_nth)
    moreover have "length (x1 ! i) = k"
      using assms(2) i len by (simp add: has_shape_def list_all_length)
    ultimately show ?thesis using assms(3) by (auto simp: broadcast2_def)
  qed
  then show ?thesis using assms(2) len by (simp add: has_shape_def list_all_iff)
qed

lemma length_set_column: "length col = length m \<Longrightarrow> length (set_column m i col) = length m"
  by (simp add: set_column_def)

lemma filter_pcs_shape:
  assumes "filter_pcs lib cutoff kw pcs0 js zs = Inr pf"
  shows "length pf = length zs \<and> ncols pf = ncols zs \<and> (\<forall>i\<in>set js. i < ncols pcs0)"
  using assms
proof (induction js arbitrary: zs)
  case Nil
  then show ?case by simp
next
  case (Cons i js)
  from Cons.prems have i: "i < ncols pcs0" by (auto split: if_splits)
  from Cons.prems i obtain f col where bc: "broadcast_to (length zs) f = Inr col"
    and rec: "filter_pcs lib cutoff kw pcs0 js (set_column zs i col) = Inr pf"
    by (auto split: sum.splits if_splits)
  from bc have lc: "length col = length zs" by (auto simp: broadcast_to_def split: if_splits)
  from Cons.IH[OF rec] show ?case
    using i by (simp add: length_set_column[OF lc] ncols_set_column[OF lc])
qed

lemma np_cov_matrix:
  assumes "np_cov m = A2 c" "1 \<le> ncols m"
  shows "length c = ncols m"
proof -
  define X where "X = (if length m \<noteq> 1 then np_transpose m else m)"
  have ne: "X \<noteq> []" using assms(2) by (auto simp: X_def np_transpose_def ncols_def)
  have "length m \<noteq> 1"
  proof
    assume "length m = 1"
    then have "length X = 1" by (simp add: X_def)
    then show False
      using assms(1) ne unfolding np_cov_def X_def[symmetric] Let_def by simp
  qed
  then have lx: "length X = ncols m" by (simp add: X_def length_np_transpose)
  from assms(1) ne show ?thesis
    unfolding np_cov_def X_def[symmetric] Let_def
    by (auto simp: lx split: if_splits)
qed

lemma sort_eig_shape:
  assumes "sort_eig (e, v) = Inr (e', v')"
  shows "has_shape (length v) (length e) v'"
  using assms
  by (auto simp: sort_eig_def take_columns_def has_shape_def eig_argsort_def np_argsort_def
        list_all_iff split: sum.splits if_splits)

lemma matmul_shape:
  assumes "matmul a b = Inr c"
  shows "has_shape (length a) (ncols b) c"
  using assms by (auto simp: matmul_def has_shape_def length_np_transpose list_all_iff split: if_splits)

lemma matmul_inner:
  assumes "matmul a b = Inr c" "r \<in> set a"
  shows "length r = length b"
  using assms by (auto simp: matmul_def list_all_iff split: if_splits)

lemma neg_column_shape: "has_shape n k m \<Longrightarrow> has_shape n k (neg_column m j)"
  by (simp add: has_shape_def neg_column_def list_all_iff)

lemma choose_sign_shape:
  assumes "choose_sign scale js (lfps, lfcs) = Inr (lfps1, lfcs1)"
    and "has_shape n k lfps" and "has_shape t k' lfcs"
  shows "has_shape n k lfps1 \<and> has_shape t k' lfcs1 \<and> (js \<noteq> [] \<longrightarrow> n = length scale)"
  using assms
proof (induction js arbitrary: lfps lfcs)
  case Nil
  then show ?case by simp
next
  case (Cons j js)
  from Cons.prems(1) obtain d where d: "np_dot (column lfps j) scale = Inr d"
    by (auto split: sum.splits)
  then have "length (column lfps j) = length scale" by (auto simp: np_dot_def split: if_splits)
  then have n: "n = length scale" using Cons.prems(2) by (simp add: column_def has_shape_def)
  show ?case
  proof (cases "np_less d (Fin 0)")
    case True
    then have "choose_sign scale js (neg_column lfps j, neg_column lfcs j) = Inr (lfps1, lfcs1)"
      using Cons.prems(1) d by simp
    from Cons.IH[OF this neg_column_shape[OF Cons.prems(2)] neg_column_shape[OF Cons.prems(3)]]
    show ?thesis using n by simp
  next
    case False
    then have "choose_sign scale js (lfps, lfcs) = Inr (lfps1, lfcs1)"
      using Cons.prems(1) d by simp
    from Cons.IH[OF this Cons.prems(2,3)] show ?thesis using n by simp
  qed
qed

lemma transpose_shape:
  assumes "has_shape n k m" "0 < n"
  shows "has_shape k n (np_transpose m)"
  using assms has_shape_ncols[OF assms]
  by (simp add: has_shape_def np_transpose_def column_def list_all_iff)

lemma lfca_stages_all:
  assumes "lfca lib (A2 x0) cutoff truncation weights kw = Inr (lfcs, lfps)"
  shows "\<exists>xs s pf c e v e' eigv' uvec lfcs0 lfps0.
           map_err (\<lambda>r. broadcast2 np_mul r (lfca_scale weights)) (center x0) = Inr xs
         \<and> Eof lib xs = Inr s
         \<and> filter_pcs lib cutoff kw (eof_pcs s truncation) [0..<truncation]
               (map (map (\<lambda>_. Fin 0)) (eof_pcs s truncation)) = Inr pf
         \<and> np_cov pf = A2 c \<and> eigh lib c = Inr (e, v)
         \<and> sort_eig (e, v) = Inr (e', eigv')
         \<and> matmul (np_transpose (eof_eofs s truncation 1)) eigv' = Inr uvec
         \<and> matmul xs uvec = Inr lfcs0
         \<and> matmul (np_transpose (eof_eofs s truncation 2)) eigv' = Inr lfps0
         \<and> sign_and_rescale (lfca_scale weights) lfps0 lfcs0 = Inr (lfcs, lfps)"
  using assms[unfolded lfca_def Let_def]
  by (auto simp: np_linalg_eigh_def split: sum.splits prod.splits ndarray.splits)

lemma rescale_shape:
  assumes "broadcast2 (\<lambda>r s. map (\<lambda>v. np_div v s) r) lfps1 scale = Inr lfps2"
    and "has_shape n k lfps1" and "length scale = n"
  shows "has_shape n k lfps2"
proof -
  have "lfps2 = map2 (\<lambda>r s. map (\<lambda>v. np_div v s) r) lfps1 scale"
    using assms by (simp add: broadcast2_def has_shape_def)
  then show ?thesis
    using assms(2,3) by (auto simp: has_shape_def list_all_iff dest!: set_zip_leftD)
qed

text \<open>
  With a truncation \<open>K\<close> for which \<open>lfca\<close> returns, a \<open>T \<times> N\<close> data matrix and \<open>N\<close>
  weights give an LFC array of shape \<open>(T, K)\<close> and an LFP array of shape \<open>(K, N)\<close>,
  for a solver that returns at most \<open>K\<close> components and one EOF column per data column,
  and an \<open>eigh\<close> that returns as many eigenvalues and eigenvector rows as its matrix has
  rows.
\<close>

lemma lfca_shapes:
  assumes r: "lfca lib (A2 x) cutoff K weights kw = Inr (lfcs, lfps)"
    and x: "has_shape T N x" and T: "0 < T" and N: "0 < N" and K: "0 < K"
    and wl: "length weights = N"
    and hp: "\<forall>xs s. Eof lib xs = Inr s \<longrightarrow>
               ncols (eof_pcs s K) \<le> K \<and> ncols (eof_eofs s K 2) = ncols xs"
    and hg: "\<forall>m e v. eigh lib m = Inr (e, v) \<longrightarrow> length e = length m \<and> length v = length m"
  shows "has_shape T K lfcs \<and> has_shape K N lfps"
proof -
  from lfca_stages_all[OF r] obtain xs s pf c e v e' eigv' uvec lfcs0 lfps0 where
    sx: "map_err (\<lambda>r. broadcast2 np_mul r (lfca_scale weights)) (center x) = Inr xs"
    and eo: "Eof lib xs = Inr s"
    and fp: "filter_pcs lib cutoff kw (eof_pcs s K) [0..<K] (map (map (\<lambda>_. Fin 0)) (eof_pcs s K)) = Inr pf"
    and cv: "np_cov pf = A2 c" and eg: "eigh lib c = Inr (e, v)"
    and se: "sort_eig (e, v) = Inr (e', eigv')"
    and mu: "matmul (np_transpose (eof_eofs s K 1)) eigv' = Inr uvec"
    and mc: "matmul xs uvec = Inr lfcs0"
    and mp: "matmul (np_transpose (eof_eofs s K 2)) eigv' = Inr lfps0"
    and sr: "sign_and_rescale (lfca_scale weights) lfps0 lfcs0 = Inr (lfcs, lfps)"
    by blast
  have lsc: "length (lfca_scale weights) = N" by (simp add: lfca_scale_def wl)
  have xs: "has_shape T N xs"
    by (rule scaled_shape[OF sx center_shape[OF x] lsc])
  have ncx: "ncols xs = N" by (rule has_shape_ncols[OF xs T])
  \<comment> \<open>the filtered components\<close>
  from filter_pcs_shape[OF fp] have npf: "ncols pf = ncols (eof_pcs s K)"
    and idx: "\<forall>i\<in>set [0..<K]. i < ncols (eof_pcs s K)"
    by (simp_all add: ncols_zeros)
  have "K - 1 < ncols (eof_pcs s K)" using idx K by simp
  then have "ncols (eof_pcs s K) = K" using hp eo K by (simp add: le_antisym Suc_leI)
  then have npfK: "ncols pf = K" using npf by simp
  \<comment> \<open>the eigenproblem\<close>
  have lc: "length c = K" using np_cov_matrix[OF cv] npfK K by simp
  from hg eg lc have le: "length e = K" and lv: "length v = K" by simp_all
  have ev: "has_shape K K eigv'" using sort_eig_shape[OF se] le lv by simp
  have nce: "ncols eigv' = K" by (rule has_shape_ncols[OF ev K])
  \<comment> \<open>the components\<close>
  have us: "has_shape (length (np_transpose (eof_eofs s K 1))) K uvec"
    using matmul_shape[OF mu] nce by simp
  obtain r0 where r0: "r0 \<in> set xs" using xs T by (cases xs) (auto simp: has_shape_def)
  then have "length r0 = N" using xs by (simp add: has_shape_def list_all_iff)
  then have lu: "length uvec = N" using matmul_inner[OF mc r0] by simp
  have ncu: "ncols uvec = K"
    using has_shape_ncols[OF us] lu N us by (simp add: has_shape_def)
  have c0: "has_shape T K lfcs0"
    using matmul_shape[OF mc] xs ncu by (simp add: has_shape_def)
  \<comment> \<open>the patterns\<close>
  have "ncols (eof_eofs s K 2) = N" using hp eo ncx by simp
  then have p0: "has_shape N K lfps0"
    using matmul_shape[OF mp] nce by (simp add: length_np_transpose)
  from sr obtain lfps1 lfps2 where
    cs: "choose_sign (lfca_scale weights) [0..<ncols lfps0] (lfps0, lfcs0) = Inr (lfps1, lfcs)"
    and bc: "broadcast2 (\<lambda>r s. map (\<lambda>v. np_div v s) r) lfps1 (lfca_scale weights) = Inr lfps2"
    and tr: "lfps = np_transpose lfps2"
    by (auto simp: sign_and_rescale_def split: sum.splits prod.splits)
  from choose_sign_shape[OF cs p0 c0] have p1: "has_shape N K lfps1" and c1: "has_shape T K lfcs"
    by simp_all
  have p2: "has_shape N K lfps2" by (rule rescale_shape[OF bc p1 lsc])
  have "has_shape K N lfps" unfolding tr by (rule transpose_shape[OF p2 N])
  with c1 show ?thesis by simp
qed

text \<open>
  C3. The claim: for a \<open>T \<times> N\<close> data matrix and every truncation \<open>K\<close> with
  \<open>1 \<le> K \<le> min(T, N)\<close>, \<open>lfca\<close> returns an LFC array of shape \<open>(T, K)\<close> and an LFP
  array of shape \<open>(K, N)\<close>. With truncation 1 the code returns nothing: \<open>np.cov\<close> of the
  single filtered component is squeezed to a zero-dimensional array, which
  \<open>np.linalg.eigh\<close> rejects. (The solver is only asked not to return more than the one
  component requested.)
\<close>

theorem lfca_truncation_one_raises:
  assumes "\<forall>xs s. Eof lib xs = Inr s \<longrightarrow> ncols (eof_pcs s 1) \<le> 1"
  shows "\<exists>err. lfca lib x cutoff 1 weights kw = Inl err"
proof (rule ccontr)
  assume "\<not> (\<exists>err. lfca lib x cutoff 1 weights kw = Inl err)"
  then obtain res where res: "lfca lib x cutoff 1 weights kw = Inr res"
    by (cases "lfca lib x cutoff 1 weights kw") auto
  from lfca_stages_front[OF res] obtain xs s pf ev where
    eo: "Eof lib xs = Inr s"
    and fp: "filter_pcs lib cutoff kw (eof_pcs s 1) [0..<1] (map (map (\<lambda>_. Fin 0)) (eof_pcs s 1)) = Inr pf"
    and eg: "np_linalg_eigh lib (np_cov pf) = Inr ev"
    by blast
  have one: "[0..<1] = [0::nat]" by simp
  from filter_pcs_single[OF fp[unfolded one]] obtain col where
    n1: "1 \<le> ncols (eof_pcs s 1)"
    and lc: "length col = length (map (map (\<lambda>_. Fin 0)) (eof_pcs s 1))"
    and pf: "pf = set_column (map (map (\<lambda>_. Fin 0)) (eof_pcs s 1)) 0 col"
    by blast
  have "ncols (eof_pcs s 1) = 1" using n1 assms eo by (simp add: le_antisym)
  then have "ncols pf = 1"
    unfolding pf ncols_set_column[OF lc] ncols_zeros .
  from np_cov_one_column[OF this] obtain v where "np_cov pf = A0 v" by blast
  with eg show False by (simp add: np_linalg_eigh_def)
qed

lemma ncols_unit_rows: "ncols (unit_rows r c d) \<le> c"
proof -
  have "ncols (map f xs) \<le> c" if "\<And>i. length (f i) = c" for f :: "nat \<Rightarrow> npfloat list" and xs
    using that by (cases xs) (simp_all add: ncols_def)
  then show ?thesis by (simp add: unit_rows_def)
qed

theorem lfca_truncation_one_raises_witness:
  "\<exists>err. lfca stub_lib (A2 [[Fin 1, Fin 2], [Fin 3, Fin 5]]) 1 1 [Fin 9, Fin 16] default_kwargs = Inl err"
proof -
  have "\<forall>xs s. Eof stub_lib xs = Inr s \<longrightarrow> ncols (eof_pcs s 1) \<le> 1"
    using ncols_unit_rows[of _ "min 1 _"] by (auto simp: stub_lib_def stub_solver_def intro: order_trans)
  from lfca_truncation_one_raises [OF this] show ?thesis .
qed

subsection \<open>An all-zero weight vector\<close>

lemma foldl_np_add_zeros: "foldl np_add (Fin 0) (replicate n (Fin 0)) = Fin 0"
  by (induction n) simp_all

lemma scale_zero_weights:
  assumes "0 < n"
  shows "lfca_scale (replicate n (Fin 0)) = replicate n NaN"
  by (simp add: lfca_scale_def np_sum_def foldl_np_add_zeros inf_of_sign_def)

lemma np_mul_nan: "np_mul v NaN = NaN"
  by (cases v) simp_all

lemma row_times_nan:
  assumes "length r = n"
  shows "broadcast2 np_mul r (replicate n NaN) = Inr (replicate n NaN)"
proof -
  have "map2 np_mul r (replicate n NaN) = replicate n NaN"
    using assms by (intro nth_equalityI) (simp_all add: np_mul_nan)
  then show ?thesis using assms by (simp add: broadcast2_def)
qed

lemma map_err_const:
  assumes "\<forall>y\<in>set ys. f y = Inr z"
  shows "map_err f ys = Inr (replicate (length ys) z)"
  using assms by (induction ys) simp_all

text \<open>
  With an all-zero weight vector \<open>lfca\<close> raises nothing of its own: \<open>scale\<close> is nan
  throughout, the weighted matrix is nan throughout, and that matrix goes to the \<open>Eof\<close>
  solver. An error of the solver on it is the error of \<open>lfca\<close>.
\<close>

lemma lfca_zero_weights_reaches_solver:
  assumes x: "has_shape T N x" and N: "0 < N"
  shows "map_err (\<lambda>r. broadcast2 np_mul r (lfca_scale (replicate N (Fin 0)))) (center x)
           = Inr (replicate T (replicate N NaN))"
    and "Eof lib (replicate T (replicate N NaN)) = Inl err \<Longrightarrow>
           lfca lib (A2 x) cutoff truncation (replicate N (Fin 0)) kw = Inl err"
proof -
  have cx: "has_shape T N (center x)" by (rule center_shape[OF x])
  then have "\<forall>r\<in>set (center x). broadcast2 np_mul r (replicate N NaN) = Inr (replicate N NaN)"
    by (auto simp: has_shape_def list_all_iff intro: row_times_nan)
  from map_err_const[OF this] cx
  show xs: "map_err (\<lambda>r. broadcast2 np_mul r (lfca_scale (replicate N (Fin 0)))) (center x)
           = Inr (replicate T (replicate N NaN))"
    by (simp add: scale_zero_weights[OF N] has_shape_def)
  show "lfca lib (A2 x) cutoff truncation (replicate N (Fin 0)) kw = Inl err"
    if "Eof lib (replicate T (replicate N NaN)) = Inl err"
    unfolding lfca_def ndarray.case Let_def xs sum.case that ..
qed

end
